theory Spec2Isabelle
  imports Main
begin

section \<open>JavaScript values used by the thread pool\<close>

text \<open>
  The numbers that occur in the embedded code are \<open>NaN\<close>, the two infinities, integers and
  finite non-integers. A finite non-integer is kept as a decimal: \<open>Decimal m d\<close> stands for
  \<open>m / 10 ^ d\<close> with \<open>0 < d\<close> and \<open>m\<close> not a multiple of ten. The sign of zero is dropped.
\<close>

datatype number = NaN | PosInfinity | NegInfinity | Integer int | Decimal int nat

text \<open>\<open>x > n\<close> of JavaScript for an integer \<open>n\<close>: every comparison with \<open>NaN\<close> is false.\<close>

fun gt_int :: "number \<Rightarrow> int \<Rightarrow> bool" where
  "gt_int NaN n = False"
| "gt_int PosInfinity n = True"
| "gt_int NegInfinity n = False"
| "gt_int (Integer k) n = (n < k)"
| "gt_int (Decimal m d) n = (n * 10 ^ d < m)"

subsection \<open>Double precision\<close>

text \<open>
  The queue rate is computed in double precision, and the rounding of the division shows
  in the result: \<open>Math.round((23 / 40) * 100)\<close> is 57, not 58. A non-negative double is kept
  as a pair \<open>(m, e)\<close> that stands for \<open>m * 2 ^ e\<close>. The doubles met here are far from the
  ends of the exponent range, so a result is the nearest number with a mantissa of 53
  bits, ties going to the even mantissa.
\<close>

type_synonym double = "int \<times> int"

text \<open>The integer part of the binary logarithm of a positive integer, and of \<open>a / b\<close>.\<close>

function log2floor :: "int \<Rightarrow> nat" where
  "log2floor n = (if n < 2 then 0 else Suc (log2floor (n div 2)))"
  by auto
termination
  by (relation "measure nat") auto

declare log2floor.simps [simp del]

definition ilog2 :: "int \<Rightarrow> int \<Rightarrow> int" where
  "ilog2 a b =
     (if b \<le> a then int (log2floor (a div b))
      else - int (Suc (log2floor ((b + a - 1) div a - 1))))"

text \<open>The integer nearest to \<open>n / d\<close>, the even one of two that are equally near.\<close>

definition rne :: "int \<Rightarrow> int \<Rightarrow> int" where
  "rne n d =
     (let f = n div d; r = n mod d
      in if 2 * r < d then f else if d < 2 * r then f + 1 else if even f then f else f + 1)"

text \<open>The double nearest to \<open>a / b\<close>, for \<open>0 \<le> a\<close> and \<open>0 < b\<close>.\<close>

definition nearest_double :: "int \<Rightarrow> int \<Rightarrow> double" where
  "nearest_double a b =
     (if a = 0 then (0, 0)
      else (let e = ilog2 a b - 52
            in if e < 0 then (rne (a * 2 ^ nat (- e)) b, e) else (rne a (b * 2 ^ nat e), e)))"

text \<open>\<open>q / r\<close> for two counters, \<open>x * k\<close> for a double and an integer, and \<open>Math.round\<close>.\<close>

definition fdiv :: "nat \<Rightarrow> nat \<Rightarrow> double" where
  "fdiv q r = nearest_double (int q) (int r)"

definition fmul :: "double \<Rightarrow> int \<Rightarrow> double" where
  "fmul x k =
     (case x of (m, e) \<Rightarrow>
        if e < 0 then nearest_double (k * m) (2 ^ nat (- e))
        else nearest_double (k * m * 2 ^ nat e) 1)"

definition Math_round :: "double \<Rightarrow> int" where
  "Math_round x =
     (case x of (m, e) \<Rightarrow>
        if e < 0 then (2 * m + 2 ^ nat (- e)) div (2 * 2 ^ nat (- e)) else m * 2 ^ nat e)"

text \<open>
  \<open>Math.round((q / r) * 100)\<close> for two counters: \<open>0 / 0\<close> is \<open>NaN\<close>, \<open>q / 0\<close> is
  \<open>Infinity\<close> for positive \<open>q\<close>, and \<open>Math.round x\<close> is the integer part of \<open>x + 1/2\<close>.
\<close>

definition round_percent :: "nat \<Rightarrow> nat \<Rightarrow> number" where
  "round_percent q r =
     (if r = 0 then (if q = 0 then NaN else PosInfinity)
      else Integer (Math_round (fmul (fdiv q r) 100)))"

subsection \<open>Threads, results and promises\<close>

text \<open>A Thread is identified by the id of its Worker; a job by the \<open>run\<close> call that made it.\<close>

type_synonym thread = nat
type_synonym job = nat

text \<open>What a Worker sends back for a job: a value, or \<open>{hasError: true, message}\<close>.\<close>

datatype result = Value string | HasError string

text \<open>The state of a promise. A settled promise ignores every later \<open>resolve\<close> and \<open>reject\<close>.\<close>

datatype 'a promise = Pending | Fulfilled 'a | Rejected string

definition resolve :: "'a \<Rightarrow> 'a promise \<Rightarrow> 'a promise" where
  "resolve v p = (case p of Pending \<Rightarrow> Fulfilled v | _ \<Rightarrow> p)"

definition reject :: "string \<Rightarrow> 'a promise \<Rightarrow> 'a promise" where
  "reject e p = (case p of Pending \<Rightarrow> Rejected e | _ \<Rightarrow> p)"

text \<open>
  \<open>.catch(console.error)\<close>: a rejection is logged and the derived promise is fulfilled with
  what \<open>console.error\<close> returns, \<open>undefined\<close> (\<open>None\<close> here).
\<close>

definition catch_log :: "'a option promise \<Rightarrow> 'a option promise" where
  "catch_log p = (case p of Rejected e \<Rightarrow> Fulfilled None | _ \<Rightarrow> p)"

section \<open>The ThreadPool object\<close>

record options =
  preload :: bool
  optMaxThreads :: "int option"
  optMinThreads :: "int option"
  optQueueTolerance :: "int option"

text \<open>
  \<open>freeThreads\<close> holds what \<open>startThread\<close> returned, which is \<open>undefined\<close> (\<open>None\<close>) for a
  Thread that failed to start. \<open>waitingJobs\<close> holds the continuations queued by \<open>run\<close>, each
  named by its job.
\<close>

record pool =
  freeThreads :: "thread option list"
  waitingJobs :: "job list"
  name :: string
  maxThreads :: int
  minThreads :: int
  queueTolerance :: int
  closed :: bool
  reloads :: nat
  jobsRequested :: nat
  jobsQueued :: nat
  totalThreads :: nat

definition DEFAULT_THREADPOOL_MIN :: int where "DEFAULT_THREADPOOL_MIN = 1"
definition DEFAULT_THREADPOOL_MAX :: int where "DEFAULT_THREADPOOL_MAX = 2"
definition DEFAULT_JOBQUEUE_TOLERANCE :: int where "DEFAULT_JOBQUEUE_TOLERANCE = 25"

text \<open>\<open>x || d\<close> for an optional number: \<open>undefined\<close> and \<open>0\<close> are falsy.\<close>

definition or_default :: "int option \<Rightarrow> int \<Rightarrow> int" where
  "or_default x d = (case x of None \<Rightarrow> d | Some v \<Rightarrow> if v = 0 then d else v)"

text \<open>
  The fields the constructor sets. With \<open>options.preload\<close> it also calls \<open>startThreads\<close>
  and, when that is done, sets \<open>totalThreads\<close> to the length of \<open>freeThreads\<close>: the events
  \<open>StartThreads\<close> and \<open>Preloaded\<close> below.
\<close>

definition ThreadPool :: "string \<Rightarrow> options \<Rightarrow> pool" where
  "ThreadPool nm opts =
     \<lparr> freeThreads = [], waitingJobs = [], name = nm,
       maxThreads = or_default (optMaxThreads opts) DEFAULT_THREADPOOL_MAX,
       minThreads = or_default (optMinThreads opts) DEFAULT_THREADPOOL_MIN,
       queueTolerance = or_default (optQueueTolerance opts) DEFAULT_JOBQUEUE_TOLERANCE,
       closed = False, reloads = 0, jobsRequested = 0, jobsQueued = 0, totalThreads = 0 \<rparr>"

definition poolSize :: "pool \<Rightarrow> nat" where "poolSize p = totalThreads p"
definition maxPoolSize :: "pool \<Rightarrow> int" where "maxPoolSize p = maxThreads p"
definition minPoolSize :: "pool \<Rightarrow> int" where "minPoolSize p = minThreads p"
definition jobQueueDepth :: "pool \<Rightarrow> nat" where "jobQueueDepth p = length (waitingJobs p)"
definition availThreadCount :: "pool \<Rightarrow> nat" where "availThreadCount p = length (freeThreads p)"
definition deploymentCount :: "pool \<Rightarrow> nat" where "deploymentCount p = reloads p"
definition totalTransactions :: "pool \<Rightarrow> nat" where "totalTransactions p = jobsRequested p"
definition maxJobQueueRate :: "pool \<Rightarrow> int" where "maxJobQueueRate p = queueTolerance p"

definition noJobsRunning :: "pool \<Rightarrow> bool" where
  "noJobsRunning p = (totalThreads p = length (freeThreads p))"

definition jobQueueRate :: "pool \<Rightarrow> number" where
  "jobQueueRate p = round_percent (jobsQueued p) (jobsRequested p)"

definition bumpDeployCount :: "pool \<Rightarrow> pool" where
  "bumpDeployCount p = p\<lparr>reloads := reloads p + 1\<rparr>"

definition openPool :: "pool \<Rightarrow> pool" where
  "openPool p = p\<lparr>closed := False\<rparr>"

definition closePool :: "pool \<Rightarrow> pool" where
  "closePool p = p\<lparr>closed := True\<rparr>"

text \<open>\<open>Array.prototype.shift\<close>: the first element, \<open>undefined\<close> on an empty array.\<close>

fun shift :: "'a option list \<Rightarrow> 'a option \<times> 'a option list" where
  "shift [] = (None, [])"
| "shift (x # xs) = (x, xs)"

section \<open>Starting a Thread\<close>

text \<open>
  \<open>new Worker\<close> either throws or constructs a Worker; a constructed Worker either sends its
  first message or stays silent for the ten seconds after which \<open>newThread\<close> rejects.
\<close>

datatype ctor = Throws | Constructs
datatype handshake = Ready thread | TimedOut

text \<open>
  What a caller suspended at \<open>await this.threadAlloc()\<close> waits for: nothing was started,
  the constructor threw, or a Worker was constructed and its first message is awaited.
\<close>

datatype alloc = NotStarted | CtorThrew | AwaitingReady

text \<open>The synchronous part of \<open>newThread\<close>: \<open>totalThreads\<close> grows once the Worker exists.\<close>

definition newThread :: "ctor \<Rightarrow> pool \<Rightarrow> alloc \<times> pool" where
  "newThread w p =
     (case w of
        Throws \<Rightarrow> (CtorThrew, p)
      | Constructs \<Rightarrow> (AwaitingReady, p\<lparr>totalThreads := totalThreads p + 1\<rparr>))"

definition startThread :: "ctor \<Rightarrow> pool \<Rightarrow> alloc \<times> pool" where
  "startThread w p = newThread w p"

text \<open>
  The value \<open>startThread\<close> returns once \<open>newThread\<close> has settled: the Thread after its first
  message, \<open>undefined\<close> when the rejection was logged.
\<close>

definition started :: "alloc \<Rightarrow> handshake \<Rightarrow> thread option" where
  "started a h =
     (case a of
        AwaitingReady \<Rightarrow> (case h of Ready t \<Rightarrow> Some t | TimedOut \<Rightarrow> None)
      | _ \<Rightarrow> None)"

definition threadAlloc :: "ctor \<Rightarrow> pool \<Rightarrow> alloc \<times> pool" where
  "threadAlloc w p =
     (if poolSize p = 0 \<or>
         (int (poolSize p) < maxPoolSize p \<and> gt_int (jobQueueRate p) (maxJobQueueRate p))
      then startThread w p
      else (NotStarted, p))"

section \<open>The pool with its suspended callers, listeners and timers\<close>

text \<open>
  \<open>postJob\<close> is reached in two ways: from \<open>run\<close>, which awaits the promise and resolves its
  own with the value (\<open>Direct\<close>), and from a continuation taken off \<open>waitingJobs\<close>, whose
  callback \<open>cb\<close> resolves the promise of the \<open>run\<close> call that queued it (\<open>Queued\<close>).
\<close>

datatype mode = Direct | Queued

datatype poolref = This

text \<open>How a stopping Worker ended: by its \<open>exit\<close> event, or by \<open>terminate\<close> after five seconds.\<close>

datatype ending = Exited | Terminated

text \<open>
  Beside the pool object the state holds what the closures and the event loop hold:
  the callers suspended at \<open>await this.threadAlloc()\<close>, the \<open>once('message')\<close> listeners
  that \<open>postJob\<close> put on the Workers, the promises \<open>run\<close> returned, the events emitted, the
  listeners, timers and promises of the \<open>drain\<close> calls, the arrays \<open>stopThreads\<close> left to its
  one-second timer, the Threads that were sent \<open>shutdown\<close>, the Workers that ended, the calls
  of \<open>startThreads\<close> suspended at \<open>await this.startThread()\<close>, each with the index \<open>i\<close> of its
  loop and what it waits for, and the promises \<open>startThreads\<close> returned.
\<close>

record system =
  poolState :: pool
  suspended :: "job \<rightharpoonup> alloc"
  listeners :: "(thread \<times> job \<times> mode) list"
  promises :: "job \<rightharpoonup> result option promise"
  emitted :: "string list"
  drainListeners :: "nat list"
  drainTimers :: "nat list"
  drains :: "nat \<rightharpoonup> poolref option promise"
  killTimers :: "thread option list list"
  stopping :: "thread list"
  ended :: "(thread \<times> ending) list"
  starting :: "nat \<rightharpoonup> nat \<times> alloc"
  starts :: "nat \<rightharpoonup> poolref promise"

definition initial :: "pool \<Rightarrow> system" where
  "initial p =
     \<lparr> poolState = p, suspended = Map.empty, listeners = [], promises = Map.empty,
       emitted = [], drainListeners = [], drainTimers = [], drains = Map.empty,
       killTimers = [], stopping = [], ended = [], starting = Map.empty, starts = Map.empty \<rparr>"

definition emit :: "string \<Rightarrow> system \<Rightarrow> system" where
  "emit e s = s\<lparr>emitted := emitted s @ [e]\<rparr>"

text \<open>The \<open>resolve\<close> of the promise that \<open>run\<close> returned for job \<open>j\<close>.\<close>

definition settle :: "job \<Rightarrow> result option \<Rightarrow> system \<Rightarrow> system" where
  "settle j v s =
     (case promises s j of
        None \<Rightarrow> s
      | Some q \<Rightarrow> s\<lparr>promises := (promises s)(j \<mapsto> resolve v q)\<rparr>)"

text \<open>
  \<open>postJob\<close> up to the message it posts: the listener is put on the Worker. With an
  \<open>undefined\<close> Thread, \<open>thread.worker\<close> throws inside the promise executor and the rejection is
  logged: a caller awaiting the promise gets \<open>undefined\<close>, a callback is never called.
\<close>

definition postJob :: "thread option \<Rightarrow> job \<Rightarrow> mode \<Rightarrow> system \<Rightarrow> system" where
  "postJob th j m s =
     (case th of
        Some t \<Rightarrow> s\<lparr>listeners := listeners s @ [(t, j, m)]\<rparr>
      | None \<Rightarrow> (case m of Direct \<Rightarrow> settle j None s | Queued \<Rightarrow> s))"

text \<open>The end of \<open>run\<close>: the continuation is pushed and \<open>jobsQueued\<close> is incremented.\<close>

definition enqueue :: "job \<Rightarrow> system \<Rightarrow> system" where
  "enqueue j s =
     s\<lparr>poolState := (poolState s)
         \<lparr>waitingJobs := waitingJobs (poolState s) @ [j],
          jobsQueued := jobsQueued (poolState s) + 1\<rparr>\<rparr>"

text \<open>
  \<open>run\<close> up to its first suspension. A closed pool queues the job at once. An open pool
  takes the first free Thread; if there is none (or the entry is \<open>undefined\<close>) the caller
  is suspended on \<open>threadAlloc\<close>, whose synchronous part has run.
\<close>

definition run :: "job \<Rightarrow> ctor \<Rightarrow> system \<Rightarrow> system" where
  "run j w s =
     (let p = (poolState s)\<lparr>jobsRequested := jobsRequested (poolState s) + 1\<rparr>;
          s1 = s\<lparr>poolState := p, promises := (promises s)(j \<mapsto> Pending)\<rparr>
      in if closed p then enqueue j s1
         else (case shift (freeThreads p) of
                 (Some t, rest) \<Rightarrow>
                   postJob (Some t) j Direct (s1\<lparr>poolState := p\<lparr>freeThreads := rest\<rparr>\<rparr>)
               | (None, rest) \<Rightarrow>
                   (case threadAlloc w (p\<lparr>freeThreads := rest\<rparr>) of
                      (a, p') \<Rightarrow> s1\<lparr>poolState := p', suspended := (suspended s1)(j \<mapsto> a)\<rparr>)))"

text \<open>
  \<open>run\<close> after \<open>await this.threadAlloc()\<close>: with a Thread the job is posted, without one it
  is queued. A Thread exists only if a Worker was constructed and sent its first message,
  on which \<open>newThread\<close> emits \<open>aegis-up\<close>.
\<close>

definition resume :: "job \<Rightarrow> handshake \<Rightarrow> system \<Rightarrow> system" where
  "resume j h s =
     (case suspended s j of
        None \<Rightarrow> s
      | Some a \<Rightarrow>
          (let s1 = s\<lparr>suspended := (suspended s)(j := None)\<rparr>
           in case started a h of
                Some t \<Rightarrow> postJob (Some t) j Direct (emit ''aegis-up'' s1)
              | None \<Rightarrow> enqueue j s1))"

text \<open>
  \<open>emit('noJobsRunning')\<close>: every \<open>drain\<close> that waits has a \<open>once\<close> listener, which clears
  its timer and resolves its promise with the pool.
\<close>

definition emitNoJobsRunning :: "system \<Rightarrow> system" where
  "emitNoJobsRunning s =
     (emit ''noJobsRunning'' s)
       \<lparr>drainListeners := [],
        drainTimers := filter (\<lambda>d. d \<notin> set (drainListeners s)) (drainTimers s),
        drains := (\<lambda>d. if d \<in> set (drainListeners s)
                        then map_option (\<lambda>q. catch_log (resolve (Some This) q)) (drains s d)
                        else drains s d)\<rparr>"

text \<open>The listener \<open>postJob\<close> registered, run on the Worker's reply \<open>r\<close>.\<close>

definition onMessage :: "result \<Rightarrow> thread \<times> job \<times> mode \<Rightarrow> system \<Rightarrow> system" where
  "onMessage r l s =
     (case l of (t, j, m) \<Rightarrow>
        (let p = poolState s;
             s1 = (case waitingJobs p of
                     k # ks \<Rightarrow> postJob (Some t) k Queued (s\<lparr>poolState := p\<lparr>waitingJobs := ks\<rparr>\<rparr>)
                   | [] \<Rightarrow> s\<lparr>poolState := p\<lparr>freeThreads := freeThreads p @ [Some t]\<rparr>\<rparr>);
             s2 = (if noJobsRunning (poolState s1) then emitNoJobsRunning s1 else s1)
         in settle j (Some r) s2))"

text \<open>
  A message of Worker \<open>t\<close>: the \<open>once\<close> listeners registered on it run in the order of
  their registration and are removed; a listener registered meanwhile waits for the next
  message.
\<close>

definition message :: "thread \<Rightarrow> result \<Rightarrow> system \<Rightarrow> system" where
  "message t r s =
     fold (onMessage r) (filter (\<lambda>l. fst l = t) (listeners s))
       (s\<lparr>listeners := filter (\<lambda>l. fst l \<noteq> t) (listeners s)\<rparr>)"

text \<open>
  The \<open>error\<close> event of Worker \<open>t\<close> rejects the promise of \<open>postJob\<close>; the rejection is
  logged. A \<open>run\<close> that awaits that promise resolves its own with \<open>undefined\<close>; a queued
  job's callback is never called. The Worker has ended, and its listeners with it.
\<close>

definition onError :: "thread \<times> job \<times> mode \<Rightarrow> system \<Rightarrow> system" where
  "onError l s =
     (case l of (t, j, m) \<Rightarrow> (case m of Direct \<Rightarrow> settle j None s | Queued \<Rightarrow> s))"

definition workerError :: "thread \<Rightarrow> system \<Rightarrow> system" where
  "workerError t s =
     fold onError (filter (\<lambda>l. fst l = t) (listeners s))
       (s\<lparr>listeners := filter (\<lambda>l. fst l \<noteq> t) (listeners s)\<rparr>)"

text \<open>The function \<open>dequeue\<close> that the constructor runs every 1500 ms.\<close>

definition dequeue :: "system \<Rightarrow> system" where
  "dequeue s =
     (let p = poolState s
      in case (freeThreads p, waitingJobs p) of
           (th # ts, k # ks) \<Rightarrow>
             postJob th k Queued (s\<lparr>poolState := p\<lparr>freeThreads := ts, waitingJobs := ks\<rparr>\<rparr>)
         | _ \<Rightarrow> s)"

section \<open>Lifecycle: drain, stop and start\<close>

text \<open>
  Modelled from the spec: the module \<open>domain-events\<close> that names the pool events is not
  among the sources; section 6 of the specification lists \<open>pool-open\<close>, \<open>pool-close\<close> and
  \<open>pool-drain\<close> as the observable events.
\<close>

definition poolOpen :: "string \<Rightarrow> string" where "poolOpen nm = ''pool-open''"
definition poolClose :: "string \<Rightarrow> string" where "poolClose nm = ''pool-close''"
definition poolDrain :: "string \<Rightarrow> string" where "poolDrain nm = ''pool-drain''"

definition notify :: "(string \<Rightarrow> string) \<Rightarrow> system \<Rightarrow> system" where
  "notify fn s = emit (fn (name (poolState s))) s"

definition close :: "system \<Rightarrow> system" where
  "close s = s\<lparr>poolState := closePool (poolState s)\<rparr>"

definition reopen :: "system \<Rightarrow> system" where
  "reopen s = s\<lparr>poolState := openPool (poolState s)\<rparr>"

text \<open>
  The call \<open>drain()\<close> numbered \<open>d\<close>, with the promise it returns. On an open pool the
  \<open>async\<close> function throws an \<open>Error\<close> built from an object, whose message is therefore
  \<open>[object Object]\<close>. On a closed pool the promise is that of the executor followed by
  \<open>.catch(console.error)\<close>: resolved with the pool at once when no job runs, otherwise left
  to the \<open>once('noJobsRunning')\<close> listener and the 4000 ms timer.
\<close>

definition drain :: "nat \<Rightarrow> system \<Rightarrow> system" where
  "drain d s =
     (let s1 = emit (poolDrain (name (poolState s))) s
      in if \<not> closed (poolState s)
         then s1\<lparr>drains := (drains s1)(d \<mapsto> Rejected ''[object Object]'')\<rparr>
         else if noJobsRunning (poolState s)
         then s1\<lparr>drains := (drains s1)(d \<mapsto> catch_log (resolve (Some This) Pending))\<rparr>
         else s1\<lparr>drainTimers := drainTimers s1 @ [d],
                 drainListeners := drainListeners s1 @ [d],
                 drains := (drains s1)(d \<mapsto> Pending)\<rparr>)"

text \<open>
  The 4000 ms timer of drain \<open>d\<close> calls \<open>reject\<close> without a reason; \<open>.catch(console.error)\<close>
  logs it, and the promise the caller holds is fulfilled with \<open>undefined\<close>. The \<open>once\<close>
  listener stays registered.
\<close>

definition drainTimeout :: "nat \<Rightarrow> system \<Rightarrow> system" where
  "drainTimeout d s =
     (if d \<in> set (drainTimers s)
      then s\<lparr>drainTimers := removeAll d (drainTimers s),
             drains := (drains s)(d := map_option (\<lambda>q. catch_log (reject ''undefined'' q)) (drains s d))\<rparr>
      else s)"

text \<open>
  \<open>stopThreads\<close> empties \<open>freeThreads\<close> with \<open>splice\<close>, zeroes \<open>totalThreads\<close> and leaves
  the removed array to a timer of 1000 ms.
\<close>

definition stopThreads :: "system \<Rightarrow> system" where
  "stopThreads s =
     s\<lparr>poolState := (poolState s)\<lparr>freeThreads := [], totalThreads := 0\<rparr>,
       killTimers := killTimers s @ [freeThreads (poolState s)]\<rparr>"

text \<open>
  \<open>kill\<close>: the Worker is sent \<open>shutdown\<close>; it then ends by its \<open>exit\<close> event, or by
  \<open>terminate\<close> when the five seconds of the timer have passed.
\<close>

definition kill :: "thread \<Rightarrow> system \<Rightarrow> system" where
  "kill t s = s\<lparr>stopping := stopping s @ [t]\<rparr>"

text \<open>
  The timer of \<open>stopThreads\<close> fires: \<open>kill.map(thread => thread.stop())\<close> stops the entries
  in order, and throws at the first \<open>undefined\<close> entry, leaving the rest alone.
\<close>

definition killTimeout :: "system \<Rightarrow> system" where
  "killTimeout s =
     (case killTimers s of
        [] \<Rightarrow> s
      | b # bs \<Rightarrow> fold kill (map the (takeWhile (\<lambda>th. th \<noteq> None) b)) (s\<lparr>killTimers := bs\<rparr>))"

definition workerExit :: "thread \<Rightarrow> system \<Rightarrow> system" where
  "workerExit t s =
     (if t \<in> set (stopping s)
      then s\<lparr>stopping := removeAll t (stopping s), ended := ended s @ [(t, Exited)]\<rparr>
      else s)"

definition terminateTimeout :: "thread \<Rightarrow> system \<Rightarrow> system" where
  "terminateTimeout t s =
     (if t \<in> set (stopping s)
      then s\<lparr>stopping := removeAll t (stopping s), ended := ended s @ [(t, Terminated)]\<rparr>
      else s)"

text \<open>One turn of the loop of \<open>startThreads\<close>: \<open>this.freeThreads.push(await this.startThread())\<close>.\<close>

definition startOne :: "ctor \<times> handshake \<Rightarrow> system \<Rightarrow> system" where
  "startOne wh s =
     (case startThread (fst wh) (poolState s) of
        (a, p') \<Rightarrow>
          (let th = started a (snd wh);
               s1 = (if th = None then s else emit ''aegis-up'' s)
           in s1\<lparr>poolState := p'\<lparr>freeThreads := freeThreads p' @ [th]\<rparr>\<rparr>))"

text \<open>
  \<open>startThreads\<close> runs the loop for \<open>i\<close> from 0 while \<open>i < minPoolSize()\<close>; \<open>env i\<close> says how
  the \<open>i\<close>-th Worker behaves. The turns are taken here without another event in between;
  \<open>startThreadsCall\<close> and \<open>startThreadsNext\<close> below take them one by one.
\<close>

fun startLoop :: "nat \<Rightarrow> nat \<Rightarrow> (nat \<Rightarrow> ctor \<times> handshake) \<Rightarrow> system \<Rightarrow> system" where
  "startLoop i 0 env s = s"
| "startLoop i (Suc n) env s = startLoop (Suc i) n env (startOne (env i) s)"

definition startThreads :: "(nat \<Rightarrow> ctor \<times> handshake) \<Rightarrow> system \<Rightarrow> system" where
  "startThreads env s = startLoop 0 (nat (minPoolSize (poolState s))) env s"

text \<open>
  \<open>startThreads\<close> is an \<open>async\<close> function and gives way at every \<open>await\<close>. The call numbered
  \<open>c\<close> runs up to its first \<open>await\<close>: when \<open>0 < minPoolSize()\<close> fails, the loop is skipped and
  the promise is fulfilled with the pool; otherwise \<open>startThread\<close> has run its synchronous
  part with the Worker \<open>w\<close>, and the call is suspended with the promise pending.
\<close>

definition startThreadsCall :: "nat \<Rightarrow> ctor \<Rightarrow> system \<Rightarrow> system" where
  "startThreadsCall c w s =
     (if 0 < minPoolSize (poolState s)
      then (case startThread w (poolState s) of
              (a, p') \<Rightarrow>
                s\<lparr>poolState := p', starting := (starting s)(c \<mapsto> (0, a)),
                  starts := (starts s)(c \<mapsto> Pending)\<rparr>)
      else s\<lparr>starts := (starts s)(c \<mapsto> Fulfilled This)\<rparr>)"

text \<open>
  The continuation of call \<open>c\<close> when its \<open>startThread\<close> has settled with \<open>h\<close>: the result is
  pushed onto \<open>freeThreads\<close> as they are then, \<open>i\<close> is incremented, and the loop either starts
  the next Worker \<open>w\<close> and is suspended again, or ends and the promise is fulfilled with the
  pool. Nothing in \<open>startThreads\<close> throws, so nothing rejects its promise.
\<close>

definition startThreadsNext :: "nat \<Rightarrow> handshake \<Rightarrow> ctor \<Rightarrow> system \<Rightarrow> system" where
  "startThreadsNext c h w s =
     (case starting s c of
        None \<Rightarrow> s
      | Some (i, a) \<Rightarrow>
          (let th = started a h;
               s1 = (if th = None then s else emit ''aegis-up'' s);
               s2 = s1\<lparr>poolState := (poolState s1)\<lparr>freeThreads := freeThreads (poolState s1) @ [th]\<rparr>\<rparr>
           in if int (Suc i) < minPoolSize (poolState s2)
              then (case startThread w (poolState s2) of
                      (a', p') \<Rightarrow> s2\<lparr>poolState := p', starting := (starting s2)(c \<mapsto> (Suc i, a'))\<rparr>)
              else s2\<lparr>starting := (starting s2)(c := None),
                      starts := (starts s2)(c := map_option (resolve This) (starts s2 c))\<rparr>))"

text \<open>
  What the constructor does after the \<open>startThreads\<close> of \<open>options.preload\<close>:
  \<open>this.totalThreads = this.freeThreads.length\<close>.
\<close>

definition preloaded :: "system \<Rightarrow> system" where
  "preloaded s = s\<lparr>poolState := (poolState s)\<lparr>totalThreads := length (freeThreads (poolState s))\<rparr>\<rparr>"

definition bump :: "system \<Rightarrow> system" where
  "bump s = s\<lparr>poolState := bumpDeployCount (poolState s)\<rparr>"

section \<open>Runs of the pool\<close>

text \<open>
  What can happen to a pool, one event at a time: the calls of its methods, the
  continuation of a suspended \<open>run\<close>, the messages, errors and exits of its Workers, and
  its timers. \<open>startThreads\<close> occurs as a whole, by single turns of its loop, and as the
  call and the continuations of the \<open>async\<close> function, between which other events may fall.
\<close>

datatype event =
    Run job ctor
  | Resume job handshake
  | Message thread result
  | WorkerError thread
  | Dequeue
  | Close
  | Open
  | Notify "string \<Rightarrow> string"
  | BumpDeployCount
  | Drain nat
  | DrainTimeout nat
  | StopThreads
  | KillTimeout
  | WorkerExit thread
  | TerminateTimeout thread
  | StartThreads "nat \<Rightarrow> ctor \<times> handshake"
  | StartTurn "ctor \<times> handshake"
  | StartCall nat ctor
  | StartNext nat handshake ctor
  | Preloaded

fun step :: "event \<Rightarrow> system \<Rightarrow> system" where
  "step (Run j w) s = run j w s"
| "step (Resume j h) s = resume j h s"
| "step (Message t r) s = message t r s"
| "step (WorkerError t) s = workerError t s"
| "step Dequeue s = dequeue s"
| "step Close s = close s"
| "step Open s = reopen s"
| "step (Notify fn) s = notify fn s"
| "step BumpDeployCount s = bump s"
| "step (Drain d) s = drain d s"
| "step (DrainTimeout d) s = drainTimeout d s"
| "step StopThreads s = stopThreads s"
| "step KillTimeout s = killTimeout s"
| "step (WorkerExit t) s = workerExit t s"
| "step (TerminateTimeout t) s = terminateTimeout t s"
| "step (StartThreads env) s = startThreads env s"
| "step (StartTurn wh) s = startOne wh s"
| "step (StartCall c w) s = startThreadsCall c w s"
| "step (StartNext c h w) s = startThreadsNext c h w s"
| "step Preloaded s = preloaded s"

definition exec :: "event list \<Rightarrow> system \<Rightarrow> system" where
  "exec evs s = fold step evs s"

section \<open>What a step leaves alone\<close>

text \<open>
  Only \<open>run\<close> and its continuation touch the two job counters and the table of suspended
  callers. Every caller suspended on \<open>threadAlloc\<close> has been counted in \<open>jobsRequested\<close>
  and not yet in \<open>jobsQueued\<close>.
\<close>

definition frame :: "system \<Rightarrow> nat \<times> nat \<times> (job \<rightharpoonup> alloc)" where
  "frame s = (jobsRequested (poolState s), jobsQueued (poolState s), suspended s)"

definition accounted :: "system \<Rightarrow> bool" where
  "accounted s \<longleftrightarrow> finite (dom (suspended s)) \<and>
     jobsQueued (poolState s) + card (dom (suspended s)) \<le> jobsRequested (poolState s)"

text \<open>Whether a promise, if it exists, has been rejected.\<close>

fun rejected :: "'a promise option \<Rightarrow> bool" where
  "rejected (Some (Rejected e)) = True"
| "rejected q = False"

text \<open>
  Whether the caller suspended on \<open>threadAlloc\<close> waits for a Thread that \<open>startThread\<close> was
  asked to start, be it that the constructor threw.
\<close>

fun startRequested :: "alloc option \<Rightarrow> bool" where
  "startRequested (Some AwaitingReady) = True"
| "startRequested (Some CtorThrew) = True"
| "startRequested a = False"

text \<open>The Threads of the pool: those on \<open>freeThreads\<close> and those busy with a job.\<close>

definition poolThreads :: "system \<Rightarrow> thread list" where
  "poolThreads s =
     map the (filter (\<lambda>th. th \<noteq> None) (freeThreads (poolState s))) @ map fst (listeners s)"

text \<open>No promise returned by \<open>run\<close> has been rejected.\<close>

definition unrejected :: "system \<Rightarrow> bool" where
  "unrejected s \<longleftrightarrow> (\<forall>j. \<not> rejected (promises s j))"

text \<open>
  What one turn of \<open>startThreads\<close> pushes: the Thread of a Worker that was constructed and
  sent its first message, \<open>undefined\<close> otherwise.
\<close>

definition startResult :: "ctor \<times> handshake \<Rightarrow> thread option" where
  "startResult wh =
     (case fst wh of
        Throws \<Rightarrow> None
      | Constructs \<Rightarrow> (case snd wh of Ready t \<Rightarrow> Some t | TimedOut \<Rightarrow> None))"

text \<open>
  How far the calls of \<open>startThreads\<close> have come. Only the call and the continuations of
  \<open>startThreads\<close> itself touch it.
\<close>

definition progress :: "system \<Rightarrow> (nat \<rightharpoonup> nat \<times> alloc) \<times> (nat \<rightharpoonup> poolref promise)" where
  "progress s = (starting s, starts s)"

text \<open>
  The call of \<open>startThreads\<close> numbered \<open>c\<close> with its first \<open>n\<close> continuations and nothing in
  between; \<open>env i\<close> says how the \<open>i\<close>-th Worker behaves.
\<close>

definition startEvents :: "nat \<Rightarrow> (nat \<Rightarrow> ctor \<times> handshake) \<Rightarrow> nat \<Rightarrow> event list" where
  "startEvents c env n =
     StartCall c (fst (env 0)) # map (\<lambda>i. StartNext c (snd (env i)) (fst (env (Suc i)))) [0..<n]"


section \<open>ThreadPoolFactory: the registry of pools\<close>

text \<open>
  \<open>String.prototype.toUpperCase\<close> on the ASCII letters; the strings of the model are
  ASCII strings.
\<close>

definition upper_char :: "char \<Rightarrow> char" where
  "upper_char c =
     (case map_of (zip ''abcdefghijklmnopqrstuvwxyz'' ''ABCDEFGHIJKLMNOPQRSTUVWXYZ'') c of
        Some u \<Rightarrow> u
      | None \<Rightarrow> c)"

definition toUpperCase :: "string \<Rightarrow> string" where
  "toUpperCase s = map upper_char s"

text \<open>
  A key of the JavaScript \<open>Map\<close>: a string, or a ThreadPool object (given by the name of
  the pool), which equals no string. The map keeps its entries in the order of insertion.
\<close>

datatype key = Name string | PoolObject string

type_synonym registry = "(key \<times> system) list"

definition mapHas :: "key \<Rightarrow> registry \<Rightarrow> bool" where
  "mapHas k R = (k \<in> set (map fst R))"

definition mapGet :: "key \<Rightarrow> registry \<Rightarrow> system option" where
  "mapGet k R = map_of R k"

definition mapSet :: "key \<Rightarrow> system \<Rightarrow> registry \<Rightarrow> registry" where
  "mapSet k v R =
     (if mapHas k R then map (\<lambda>e. if fst e = k then (k, v) else e) R else R @ [(k, v)])"

definition mapDelete :: "key \<Rightarrow> registry \<Rightarrow> registry" where
  "mapDelete k R = filter (\<lambda>e. fst e \<noteq> k) R"

text \<open>
  \<open>createThreadPool\<close> constructs the pool, with the Threads of \<open>options.preload\<close>, and
  stores it under the model name.
\<close>

definition createThreadPool ::
  "string \<Rightarrow> options \<Rightarrow> (nat \<Rightarrow> ctor \<times> handshake) \<Rightarrow> registry \<Rightarrow> registry" where
  "createThreadPool modelName opts env R =
     (let s = initial (ThreadPool modelName opts)
      in mapSet (Name modelName) (if preload opts then preloaded (startThreads env s) else s) R)"

definition listPools :: "registry \<Rightarrow> key list" where
  "listPools R = map fst R"

definition getPool ::
  "string \<Rightarrow> options \<Rightarrow> (nat \<Rightarrow> ctor \<times> handshake) \<Rightarrow> registry \<Rightarrow> registry" where
  "getPool poolName opts env R =
     (if mapHas (Name poolName) R then R else createThreadPool poolName opts env R)"

text \<open>
  \<open>getThreadPool\<close> with \<open>preload\<close> looks the pool up or creates it; without, it returns a
  facade and leaves the registry alone until the facade's \<open>run\<close> or \<open>status\<close> is called.
\<close>

definition getThreadPool ::
  "string \<Rightarrow> options \<Rightarrow> (nat \<Rightarrow> ctor \<times> handshake) \<Rightarrow> registry \<Rightarrow> registry" where
  "getThreadPool poolName opts env R = (if preload opts then getPool poolName opts env R else R)"

definition facadeRun ::
  "string \<Rightarrow> options \<Rightarrow> (nat \<Rightarrow> ctor \<times> handshake) \<Rightarrow> job \<Rightarrow> ctor \<Rightarrow> registry \<Rightarrow> registry" where
  "facadeRun poolName opts env j w R =
     (let R' = getPool poolName opts env R
      in case mapGet (Name poolName) R' of
           None \<Rightarrow> R'
         | Some s \<Rightarrow> mapSet (Name poolName) (run j w s) R')"

record report =
  rName :: string
  rOpen :: bool
  rMax :: int
  rMin :: int
  rTotal :: nat
  rWaiting :: nat
  rAvailable :: nat
  rTransactions :: nat
  rQueueRate :: number
  rTolerance :: int
  rReloads :: nat

definition status :: "pool \<Rightarrow> report" where
  "status p =
     \<lparr> rName = name p, rOpen = (\<not> closed p), rMax = maxPoolSize p, rMin = minPoolSize p,
       rTotal = poolSize p, rWaiting = jobQueueDepth p, rAvailable = availThreadCount p,
       rTransactions = totalTransactions p, rQueueRate = jobQueueRate p,
       rTolerance = maxJobQueueRate p, rReloads = deploymentCount p \<rparr>"

datatype failure = TypeError

text \<open>\<open>ThreadPoolFactory.status(poolName)\<close> with a name: a method call on what \<open>get\<close> returns.\<close>

definition statusOf :: "string \<Rightarrow> registry \<Rightarrow> failure + report" where
  "statusOf poolName R =
     (case mapGet (Name (toUpperCase poolName)) R of
        None \<Rightarrow> Inl TypeError
      | Some s \<Rightarrow> Inr (status (poolState s)))"

text \<open>
  While \<open>reload\<close> or \<open>destroy\<close> waits for the promise of \<open>drain\<close>, the pool goes on: the
  events \<open>evs\<close> happen to it, up to the one that settles the promise.
\<close>

fun awaitDrain :: "nat \<Rightarrow> event list \<Rightarrow> system \<Rightarrow> system" where
  "awaitDrain d [] s = s"
| "awaitDrain d (e # es) s =
     (if drains s d = Some Pending then awaitDrain d es (step e s) else s)"

text \<open>
  \<open>reload\<close>, with \<open>d\<close> the number of its \<open>drain\<close> call. Without a pool under the upper-cased
  name the promise is rejected with \<open>no such pool\<close> (and \<open>pool.close()\<close> throws after that);
  if \<open>drain\<close> gave \<open>undefined\<close>, \<open>pool.stopThreads()\<close> throws a \<open>TypeError\<close>. Every rejection
  ends in \<open>.catch(console.error)\<close>. The pool is an object shared with the map, so the entry
  shows what was done to it.
\<close>

definition reload ::
  "string \<Rightarrow> nat \<Rightarrow> event list \<Rightarrow> (nat \<Rightarrow> ctor \<times> handshake) \<Rightarrow> registry
     \<Rightarrow> registry \<times> poolref option promise" where
  "reload poolName d evs env R =
     (let k = Name (toUpperCase poolName)
      in case mapGet k R of
           None \<Rightarrow> (R, catch_log (Rejected ''no such pool''))
         | Some s \<Rightarrow>
             (let s1 = awaitDrain d evs (drain d (notify poolClose (close s)))
              in case drains s1 d of
                   Some (Fulfilled (Some This)) \<Rightarrow>
                     (mapSet k (notify poolOpen (bump (reopen (startThreads env (stopThreads s1))))) R,
                      Fulfilled (Some This))
                 | Some (Fulfilled None) \<Rightarrow> (mapSet k s1 R, catch_log (Rejected ''TypeError''))
                 | Some (Rejected e) \<Rightarrow> (mapSet k s1 R, catch_log (Rejected e))
                 | _ \<Rightarrow> (mapSet k s1 R, Pending)))"

text \<open>
  \<open>destroy\<close>: as \<open>reload\<close> up to \<open>stopThreads\<close>; then \<open>threadPools.delete(pool)\<close> is called
  with the pool object, not with its name, and the promise resolves with what \<open>delete\<close>
  returns.
\<close>

definition destroy ::
  "string \<Rightarrow> nat \<Rightarrow> event list \<Rightarrow> registry \<Rightarrow> registry \<times> bool option promise" where
  "destroy poolName d evs R =
     (let k = Name (toUpperCase poolName)
      in case mapGet k R of
           None \<Rightarrow> (R, catch_log (Rejected ''no such pool''))
         | Some s \<Rightarrow>
             (let s1 = awaitDrain d evs (drain d (notify poolClose (close s)))
              in case drains s1 d of
                   Some (Fulfilled (Some This)) \<Rightarrow>
                     (let s2 = stopThreads s1; R1 = mapSet k s2 R;
                          pool = PoolObject (name (poolState s2))
                      in (mapDelete pool R1, Fulfilled (Some (mapHas pool R1))))
                 | Some (Fulfilled None) \<Rightarrow> (mapSet k s1 R, catch_log (Rejected ''TypeError''))
                 | Some (Rejected e) \<Rightarrow> (mapSet k s1 R, catch_log (Rejected e))
                 | _ \<Rightarrow> (mapSet k s1 R, Pending)))"

text \<open>A registry as \<open>createThreadPool\<close> builds it: every key is a string.\<close>

fun isName :: "key \<Rightarrow> bool" where
  "isName (Name n) = True"
| "isName (PoolObject n) = False"

definition namedKeys :: "registry \<Rightarrow> bool" where
  "namedKeys R = list_all (\<lambda>e. isName (fst e)) R"

section \<open>WasmInterop: objects as arrays of string pairs\<close>

subsection \<open>Numbers and strings\<close>

text \<open>
  A string is a list of characters, which stand for the code units from U+0000 to U+00FF;
  strings with other code units are not modelled. A Number is kept in the notation in
  which JavaScript prints it, the shortest decimal that the double is the nearest to.
\<close>

text \<open>
  The white space that \<open>parseInt\<close> and \<open>parseFloat\<close> skip, as far as it lies below U+0100:
  tab, line feed, vertical tab, form feed, carriage return, space and no-break space.
\<close>

definition is_space :: "char \<Rightarrow> bool" where
  "is_space c =
     (c \<in> set [CHR 0x09, CHR 0x0A, CHR 0x0B, CHR 0x0C, CHR 0x0D, CHR '' '', CHR 0xA0])"

definition is_digit :: "char \<Rightarrow> bool" where
  "is_digit c = (c \<in> set ''0123456789'')"

definition is_hex :: "char \<Rightarrow> bool" where
  "is_hex c = (c \<in> set ''0123456789abcdefABCDEF'')"

definition digit_val :: "char \<Rightarrow> int" where
  "digit_val c =
     (case map_of (zip ''0123456789abcdefABCDEF''
                       [0, 1, 2, 3, 4, 5, 6, 7, 8, 9, 10, 11, 12, 13, 14, 15, 10, 11, 12, 13, 14, 15]) c of
        Some d \<Rightarrow> d
      | None \<Rightarrow> 0)"

definition digit_char :: "int \<Rightarrow> char" where
  "digit_char n = ''0123456789'' ! nat n"

text \<open>
  The value of a string of digits in radix \<open>r\<close>, and the decimal digits of an integer that is
  not negative.
\<close>

definition radix_value :: "int \<Rightarrow> string \<Rightarrow> int" where
  "radix_value r s = foldl (\<lambda>a c. a * r + digit_val c) 0 s"

function digits :: "int \<Rightarrow> string" where
  "digits n = (if n < 10 then [digit_char n] else digits (n div 10) @ [digit_char (n mod 10)])"
  by auto
termination
  by (relation "measure nat") auto

declare digits.simps [simp del]

subsection \<open>The Number value of a decimal\<close>

text \<open>The integer part of the decimal logarithm of a positive integer, and of \<open>a / b\<close>.\<close>

function log10floor :: "int \<Rightarrow> nat" where
  "log10floor n = (if n < 10 then 0 else Suc (log10floor (n div 10)))"
  by auto
termination
  by (relation "measure nat") auto

declare log10floor.simps [simp del]

definition ilog10 :: "int \<Rightarrow> int \<Rightarrow> int" where
  "ilog10 a b =
     (if b \<le> a then int (log10floor (a div b))
      else - int (Suc (log10floor ((b + a - 1) div a - 1))))"

text \<open>
  The double nearest to \<open>a / b\<close>, for \<open>0 \<le> a\<close> and \<open>0 < b\<close>, over the whole range: the mantissa
  has 53 bits, or fewer at the least exponent \<open>- 1074\<close>; ties go to the even mantissa; a
  mantissa rounded up to \<open>2 ^ 53\<close> is written with the next exponent; beyond the exponent
  971 of the largest double the result is infinite (\<open>None\<close>).
\<close>

definition to_double :: "int \<Rightarrow> int \<Rightarrow> double option" where
  "to_double a b =
     (let e = max (ilog2 a b - 52) (- 1074);
          m = (if e < 0 then rne (a * 2 ^ nat (- e)) b else rne a (b * 2 ^ nat e));
          d = (if m = 2 ^ 53 then (2 ^ 52, e + 1) else (m, e))
      in if 971 < snd d then None else Some d)"

text \<open>The double nearest to \<open>a * 10 ^ x\<close>, and the double \<open>m * 2 ^ e\<close> as a fraction.\<close>

definition of_decimal :: "int \<Rightarrow> int \<Rightarrow> double option" where
  "of_decimal a x = (if 0 \<le> x then to_double (a * 10 ^ nat x) 1 else to_double a (10 ^ nat (- x)))"

definition fraction :: "double \<Rightarrow> int \<times> int" where
  "fraction x = (case x of (m, e) \<Rightarrow> if 0 \<le> e then (m * 2 ^ nat e, 1) else (m, 2 ^ nat (- e)))"

text \<open>
  \<open>Number::toString\<close> takes the digits \<open>s\<close> and the exponent such that the decimal has as few
  digits as possible and the double is the nearest to it, and of several such decimals
  the one nearest to the double, the even one of two equally near. \<open>candidate x p\<close> is that
  \<open>s\<close> among the multiples of \<open>10 ^ p\<close>, if there is one: only the two multiples next to \<open>x\<close>
  can be the nearest.
\<close>

definition candidate :: "double \<Rightarrow> int \<Rightarrow> int option" where
  "candidate x p =
     (case fraction x of (a, b) \<Rightarrow>
        (let lo = (if 0 \<le> p then a div (b * 10 ^ nat p) else (a * 10 ^ nat (- p)) div b);
             hi = lo + 1;
             twice = (if 0 \<le> p then 2 * a else 2 * a * 10 ^ nat (- p));
             mid = (if 0 \<le> p then (lo + hi) * 10 ^ nat p * b else (lo + hi) * b);
             vlo = (of_decimal lo p = Some x);
             vhi = (of_decimal hi p = Some x)
         in if vlo \<and> vhi
            then Some (if twice < mid \<or> (twice = mid \<and> even lo) then lo else hi)
            else if vlo then Some lo
            else if vhi then Some hi
            else None))"

text \<open>
  The search goes from one digit to seventeen, which are enough for every double; \<open>p\<close> is
  the exponent of the last digit.
\<close>

fun shortest_from :: "nat \<Rightarrow> double \<Rightarrow> int \<Rightarrow> int \<times> int" where
  "shortest_from 0 x p = (fst (fraction x) * 10 ^ nat (- p) div snd (fraction x), p)"
| "shortest_from (Suc f) x p =
     (case candidate x p of
        Some s \<Rightarrow> (s, p)
      | None \<Rightarrow> shortest_from f x (p - 1))"

definition shortest :: "double \<Rightarrow> int \<times> int" where
  "shortest x = (case fraction x of (a, b) \<Rightarrow> shortest_from 17 x (ilog10 a b))"

text \<open>The decimal \<open>s * 10 ^ p\<close> without the trailing zeros of \<open>s\<close>, and as a number.\<close>

function strip :: "int \<Rightarrow> int \<Rightarrow> int \<times> int" where
  "strip s p = (if s \<noteq> 0 \<and> s mod 10 = 0 then strip (s div 10) (p + 1) else (s, p))"
  by auto
termination
  by (relation "measure (\<lambda>(s, p). nat \<bar>s\<bar>)") auto

declare strip.simps [simp del]

definition written :: "bool \<Rightarrow> int \<times> int \<Rightarrow> number" where
  "written neg sp =
     (case strip (fst sp) (snd sp) of (s, p) \<Rightarrow>
        if 0 \<le> p then Integer ((if neg then - s else s) * 10 ^ nat p)
        else Decimal (if neg then - s else s) (nat (- p)))"

text \<open>
  The Number value of \<open>a * 10 ^ x\<close> for \<open>0 \<le> a\<close>, negated if \<open>neg\<close>. A decimal below \<open>10 ^ - 324\<close>
  is nearest to zero and one from \<open>10 ^ 309\<close> on is beyond the largest double, which is
  decided by the number of digits before the powers are computed.
\<close>

definition number_of :: "bool \<Rightarrow> int \<Rightarrow> int \<Rightarrow> number" where
  "number_of neg a x =
     (if a = 0 \<or> int (log10floor a) + x < - 324 then Integer 0
      else if 309 \<le> int (log10floor a) + x then (if neg then NegInfinity else PosInfinity)
      else case of_decimal a x of
             None \<Rightarrow> (if neg then NegInfinity else PosInfinity)
           | Some d \<Rightarrow> if fst d = 0 then Integer 0 else written neg (shortest d))"

text \<open>
  The Number that a decimal denotes, as a numeric literal does: \<open>9007199254740993\<close> is the
  Number \<open>9007199254740992\<close>.
\<close>

fun canonical :: "number \<Rightarrow> number" where
  "canonical (Integer i) = number_of (i < 0) \<bar>i\<bar> 0"
| "canonical (Decimal m d) = number_of (m < 0) \<bar>m\<bar> (- int d)"
| "canonical n = n"

text \<open>
  The double of an integer \<open>a\<close> with \<open>0 < a < 2 ^ 53\<close>: the mantissa is \<open>a\<close> shifted to 53 bits.
\<close>

definition exact :: "int \<Rightarrow> double" where
  "exact a = (a * 2 ^ (52 - log2floor a), int (log2floor a) - 52)"

subsection \<open>Numbers as strings, strings as numbers\<close>

text \<open>A string of digits without its trailing zeros.\<close>

definition significant :: "string \<Rightarrow> string" where
  "significant ds = rev (dropWhile (\<lambda>c. c = CHR ''0'') (rev ds))"

text \<open>
  \<open>Number.prototype.toString\<close> for a positive number with the significant digits \<open>sg\<close> and
  \<open>n\<close> digits before the decimal point: positional notation for \<open>-6 < n \<le> 21\<close>, exponential
  notation otherwise.
\<close>

definition exponential :: "string \<Rightarrow> int \<Rightarrow> string" where
  "exponential sg n =
     (case sg of
        [] \<Rightarrow> []
      | c # cs \<Rightarrow>
          (if cs = [] then [c] else c # CHR ''.'' # cs)
          @ ''e'' @ (if n - 1 < 0 then ''-'' else ''+'') @ digits \<bar>n - 1\<bar>)"

definition positional :: "string \<Rightarrow> int \<Rightarrow> string" where
  "positional sg n =
     (let k = int (length sg)
      in if k \<le> n \<and> n \<le> 21 then sg @ replicate (nat (n - k)) CHR ''0''
         else if 0 < n \<and> n \<le> 21 then take (nat n) sg @ ''.'' @ drop (nat n) sg
         else if - 6 < n \<and> n \<le> 0 then ''0.'' @ replicate (nat (- n)) CHR ''0'' @ sg
         else exponential sg n)"

text \<open>The notation of \<open>m / 10 ^ d\<close>.\<close>

definition shown :: "int \<Rightarrow> nat \<Rightarrow> string" where
  "shown m d =
     (if m = 0 then ''0''
      else (if m < 0 then ''-'' else [])
           @ positional (significant (digits \<bar>m\<bar>)) (int (length (digits \<bar>m\<bar>)) - int d))"

fun printed :: "number \<Rightarrow> string" where
  "printed NaN = ''NaN''"
| "printed PosInfinity = ''Infinity''"
| "printed NegInfinity = ''-Infinity''"
| "printed (Integer i) = shown i 0"
| "printed (Decimal m d) = shown m d"

definition numberToString :: "number \<Rightarrow> string" where
  "numberToString n = printed (canonical n)"

text \<open>
  \<open>parseInt\<close> without a radix: leading white space and a sign are skipped, \<open>0x\<close> or \<open>0X\<close>
  selects radix 16, and the longest run of digits is the value, rounded to a double;
  \<open>NaN\<close> if there is no digit.
\<close>

definition negative :: "string \<Rightarrow> bool" where
  "negative s = (case s of [] \<Rightarrow> False | c # cs \<Rightarrow> c = CHR ''-'')"

definition unsigned :: "string \<Rightarrow> string" where
  "unsigned s = (case s of [] \<Rightarrow> [] | c # cs \<Rightarrow> if c = CHR ''+'' \<or> c = CHR ''-'' then cs else s)"

definition parseInt :: "string \<Rightarrow> number" where
  "parseInt str =
     (let s = dropWhile is_space str;
          s1 = unsigned s;
          hex = (take 2 s1 = ''0x'' \<or> take 2 s1 = ''0X'');
          z = (if hex then takeWhile is_hex (drop 2 s1) else takeWhile is_digit s1)
      in if z = [] then NaN
         else number_of (negative s) (radix_value (if hex then 16 else 10) z) 0)"

text \<open>The exponent part \<open>e\<close>, sign, digits at the start of a string; 0 if there is none.\<close>

definition exponent :: "string \<Rightarrow> int" where
  "exponent r =
     (case r of
        [] \<Rightarrow> 0
      | c # r1 \<Rightarrow>
          if c = CHR ''e'' \<or> c = CHR ''E''
          then (if negative r1 then - 1 else 1) * radix_value 10 (takeWhile is_digit (unsigned r1))
          else 0)"

text \<open>
  \<open>parseFloat\<close>: after white space and a sign, \<open>Infinity\<close> or the longest decimal literal:
  digits, a point with digits, an exponent; \<open>NaN\<close> if there is no digit before or after
  the point. The value is rounded to a double, which may be zero or infinite.
\<close>

definition parseFloat :: "string \<Rightarrow> number" where
  "parseFloat str =
     (let s = dropWhile is_space str;
          s1 = unsigned s
      in if take 8 s1 = ''Infinity'' then (if negative s then NegInfinity else PosInfinity)
         else (let ip = takeWhile is_digit s1;
                   r1 = dropWhile is_digit s1;
                   point = (case r1 of [] \<Rightarrow> False | c # r \<Rightarrow> c = CHR ''.'');
                   fp = (if point then takeWhile is_digit (tl r1) else []);
                   r2 = (if point then dropWhile is_digit (tl r1) else r1)
               in if ip = [] \<and> fp = [] then NaN
                  else number_of (negative s) (radix_value 10 (ip @ fp))
                         (exponent r2 - int (length fp))))"

text \<open>\<open>/pat/i.test(s)\<close> for a pattern of lower-case letters: \<open>pat\<close> occurs in \<open>s\<close>, whatever the case.\<close>

definition lower_char :: "char \<Rightarrow> char" where
  "lower_char c =
     (case map_of (zip ''ABCDEFGHIJKLMNOPQRSTUVWXYZ'' ''abcdefghijklmnopqrstuvwxyz'') c of
        Some l \<Rightarrow> l
      | None \<Rightarrow> c)"

fun test_i :: "string \<Rightarrow> string \<Rightarrow> bool" where
  "test_i pat [] = (pat = [])"
| "test_i pat (c # cs) = (map lower_char (take (length pat) (c # cs)) = pat \<or> test_i pat cs)"

subsection \<open>Values and objects\<close>

text \<open>
  An object is the list of its own enumerable properties, in the order in which
  \<open>Object.entries\<close> lists them (the places of integer-like keys are not modelled).
\<close>

datatype jsvalue =
    JUndefined
  | JNull
  | JBoolean bool
  | JNumber number
  | JString string
  | JObject "(string \<times> jsvalue) list"

fun typeof :: "jsvalue \<Rightarrow> string" where
  "typeof JUndefined = ''undefined''"
| "typeof JNull = ''object''"
| "typeof (JBoolean b) = ''boolean''"
| "typeof (JNumber n) = ''number''"
| "typeof (JString s) = ''string''"
| "typeof (JObject kvs) = ''object''"

fun truthy :: "jsvalue \<Rightarrow> bool" where
  "truthy JUndefined = False"
| "truthy JNull = False"
| "truthy (JBoolean b) = b"
| "truthy (JNumber n) = (canonical n \<noteq> NaN \<and> canonical n \<noteq> Integer 0)"
| "truthy (JString s) = (s \<noteq> [])"
| "truthy (JObject kvs) = True"

text \<open>
  \<open>v.toString()\<close> of a string, a number or a boolean. The other values never reach it in
  \<open>clean\<close>; a plain object would give \<open>[object Object]\<close>.
\<close>

fun toString :: "jsvalue \<Rightarrow> string" where
  "toString (JString s) = s"
| "toString (JNumber n) = numberToString n"
| "toString (JBoolean b) = (if b then ''true'' else ''false'')"
| "toString v = ''[object Object]''"

text \<open>\<open>Object.entries\<close>: a string lists its characters under their indices.\<close>

fun entries :: "jsvalue \<Rightarrow> (string \<times> jsvalue) list" where
  "entries (JObject kvs) = kvs"
| "entries (JString s) = map (\<lambda>i. (digits (int i), JString [s ! i])) [0..<length s]"
| "entries v = []"

text \<open>The properties \<open>port\<close> and \<open>args\<close>, which only an object can have.\<close>

fun getProp :: "string \<Rightarrow> jsvalue \<Rightarrow> jsvalue" where
  "getProp k (JObject kvs) = (case map_of kvs k of None \<Rightarrow> JUndefined | Some v \<Rightarrow> v)"
| "getProp k v = JUndefined"

subsection \<open>parse, clean, lower and lift\<close>

definition parse :: "string \<Rightarrow> jsvalue" where
  "parse v =
     (if parseInt v \<noteq> NaN then JNumber (parseInt v)
      else if parseFloat v \<noteq> NaN then JNumber (parseFloat v)
      else if test_i ''true'' v then JBoolean True
      else if test_i ''false'' v then JBoolean False
      else JString v)"

definition convert :: "jsvalue \<Rightarrow> (string \<times> string) list" where
  "convert obj =
     map (\<lambda>(k, v). (k, toString v))
       (filter (\<lambda>(k, v). typeof v \<in> set [''string'', ''number'', ''boolean'']) (entries obj))"

text \<open>\<open>clean\<close>; reading \<open>obj.port\<close> of \<open>undefined\<close> or \<open>null\<close> throws.\<close>

definition clean :: "jsvalue \<Rightarrow> failure + (string \<times> string) list" where
  "clean obj =
     (case obj of
        JUndefined \<Rightarrow> Inl TypeError
      | JNull \<Rightarrow> Inl TypeError
      | _ \<Rightarrow>
          if truthy (getProp ''port'' obj) \<and> truthy (getProp ''args'' obj)
          then Inr (convert (getProp ''args'' obj))
          else Inr (convert obj))"

text \<open>
  \<open>lower\<close> writes the array into the memory of the module and \<open>lift\<close> reads the array that
  the exported function returned, both with the functions of the loader; the model keeps
  the arrays themselves.
\<close>

definition lower :: "(string \<times> string) list \<Rightarrow> (string \<times> string) list" where
  "lower kv = kv"

text \<open>\<open>{...a, ...b}\<close>: the properties of \<open>b\<close> are set on a copy of \<open>a\<close>, one after the other.\<close>

definition setProp :: "string \<times> jsvalue \<Rightarrow> (string \<times> jsvalue) list \<Rightarrow> (string \<times> jsvalue) list" where
  "setProp kv obj =
     (if fst kv \<in> set (map fst obj)
      then map (\<lambda>e. if fst e = fst kv then kv else e) obj
      else obj @ [kv])"

definition spread :: "(string \<times> jsvalue) list \<Rightarrow> (string \<times> jsvalue) list \<Rightarrow> (string \<times> jsvalue) list" where
  "spread a b = fold setProp b a"

text \<open>
  \<open>lift\<close>, with the exported function \<open>fn\<close> as a function on arrays. \<open>reduce\<close> has no
  initial value and throws on an empty array.
\<close>

definition lift ::
  "((string \<times> string) list \<Rightarrow> (string \<times> string) list) \<Rightarrow> (string \<times> string) list
     \<Rightarrow> failure + (string \<times> jsvalue) list" where
  "lift fn kv =
     (case map (\<lambda>(k, v). [(k, parse v)]) (fn kv) of
        [] \<Rightarrow> Inl TypeError
      | a # bs \<Rightarrow> Inr (foldl spread a bs))"

definition callWasmFunction ::
  "((string \<times> string) list \<Rightarrow> (string \<times> string) list) \<Rightarrow> jsvalue
     \<Rightarrow> failure + (string \<times> jsvalue) list" where
  "callWasmFunction fn obj =
     (case clean obj of
        Inl e \<Rightarrow> Inl e
      | Inr kv \<Rightarrow> lift fn (lower kv))"

text \<open>The exported function that returns its argument.\<close>

definition echo :: "(string \<times> string) list \<Rightarrow> (string \<times> string) list" where
  "echo kv = kv"

text \<open>
  The values that \<open>clean\<close> keeps, the custom port format that it unwraps, and the values
  that no stage of \<open>parse\<close> takes for something else when they come back as strings:
  the booleans, the safe integers, the two infinities, and the strings that neither parse
  as a number nor contain \<open>true\<close> or \<open>false\<close>.
\<close>

definition scalar :: "jsvalue \<Rightarrow> bool" where
  "scalar v = (typeof v \<in> set [''string'', ''number'', ''boolean''])"

definition portFormat :: "jsvalue \<Rightarrow> bool" where
  "portFormat obj = (truthy (getProp ''port'' obj) \<and> truthy (getProp ''args'' obj))"

fun faithful :: "jsvalue \<Rightarrow> bool" where
  "faithful (JBoolean b) = True"
| "faithful (JNumber (Integer i)) = (\<bar>i\<bar> < 2 ^ 53)"
| "faithful (JNumber PosInfinity) = True"
| "faithful (JNumber NegInfinity) = True"
| "faithful (JString s) =
     (parseInt s = NaN \<and> parseFloat s = NaN \<and> \<not> test_i ''true'' s \<and> \<not> test_i ''false'' s)"
| "faithful v = False"

section \<open>Example pools\<close>

definition tolerance50 :: options where
  "tolerance50 =
     \<lparr>preload = False, optMaxThreads = None, optMinThreads = None, optQueueTolerance = Some 50\<rparr>"

definition defaults :: options where
  "defaults =
     \<lparr>preload = False, optMaxThreads = None, optMinThreads = None, optQueueTolerance = None\<rparr>"

text \<open>A closed pool that has never started a Thread.\<close>

definition closedPool :: system where
  "closedPool = exec [Close] (initial (ThreadPool ''ORDER'' defaults))"

text \<open>
  An open pool with tolerance 50 and no Thread, one job requested and queued while the
  pool was closed: the next \<open>run\<close> sees the rate \<open>round(100 * 1 / 2) = 50\<close>.
\<close>

definition tiedPool :: system where
  "tiedPool = exec [Close, Run 10 Constructs, Open] (initial (ThreadPool ''ORDER'' tolerance50))"

text \<open>Thread 7 was started for job 10 and works on it.\<close>

definition busyPool :: system where
  "busyPool = exec [Run 10 Constructs, Resume 10 (Ready 7)] (initial (ThreadPool ''ORDER'' defaults))"

text \<open>Thread 7 has finished job 10 and is free.\<close>

definition idlePool :: system where
  "idlePool = exec [Message 7 (Value ''done'')] busyPool"

text \<open>
  Thread 7 has done jobs 10 and 20, of which job 20 had to wait, and works on job 30:
  the next \<open>run\<close> sees the rate \<open>round(100 * 1 / 4) = 25\<close>, the default tolerance.
\<close>

definition quarterPool :: system where
  "quarterPool =
     exec [Run 20 Constructs, Resume 20 TimedOut, Message 7 (Value ''a''),
           Message 7 (Value ''b''), Run 30 Constructs] busyPool"

text \<open>
  Thread 7 works on job 10 and job 20 waits: the next \<open>run\<close> sees the rate
  \<open>round(100 * 1 / 3) = 33\<close>, above the default tolerance.
\<close>

definition loadedPool :: system where
  "loadedPool = exec [Run 20 Constructs, Resume 20 TimedOut] busyPool"

text \<open>The pool was closed while Thread 7 works on job 10.\<close>

definition closedBusyPool :: system where
  "closedBusyPool = exec [Close] busyPool"

text \<open>Workers that all start: the \<open>i\<close>-th is constructed and reports as Thread \<open>8 + i\<close>.\<close>

definition fresh :: "nat \<Rightarrow> ctor \<times> handshake" where
  "fresh i = (Constructs, Ready (8 + i))"

definition preloading :: options where
  "preloading =
     \<lparr>preload = True, optMaxThreads = None, optMinThreads = None, optQueueTolerance = None\<rparr>"

text \<open>
  A pool preloaded with \<open>minThreads = 2\<close>. In the first, the first Worker sends no message
  in its ten seconds and the second reports as Thread 9. In the second, both Workers
  report, and a \<open>run\<close> takes Thread 8 before Thread 9 is pushed.
\<close>

definition preloadingTwo :: options where
  "preloadingTwo =
     \<lparr>preload = True, optMaxThreads = None, optMinThreads = Some 2, optQueueTolerance = None\<rparr>"

definition limpingPool :: system where
  "limpingPool =
     exec [StartCall 0 Constructs, StartNext 0 TimedOut Constructs,
           StartNext 0 (Ready 9) Constructs, Preloaded]
       (initial (ThreadPool ''ORDER'' preloadingTwo))"

definition overtakenPool :: system where
  "overtakenPool =
     exec [StartCall 0 Constructs, StartNext 0 (Ready 8) Constructs, Run 10 Constructs,
           StartNext 0 (Ready 9) Constructs, Preloaded]
       (initial (ThreadPool ''ORDER'' preloadingTwo))"

text \<open>A registry with one preloaded pool, created under an upper-case and a lower-case name.\<close>

definition orderRegistry :: registry where
  "orderRegistry = getThreadPool ''ORDER'' preloading fresh []"

definition lowerRegistry :: registry where
  "lowerRegistry = getThreadPool ''order'' preloading fresh []"

text \<open>Two domain objects with scalar fields only.\<close>

definition orderItem :: "(string \<times> jsvalue) list" where
  "orderItem = [(''id'', JString ''42''), (''price'', JNumber (Decimal 15 1))]"

definition widget :: "(string \<times> jsvalue) list" where
  "widget = [(''name'', JString ''widget''), (''count'', JNumber (Integer 7)), (''ok'', JBoolean True)]"

section \<open>Properties of the pool\<close>

subsection \<open>The job counters\<close>

lemma frame_postJob: "frame (postJob th j m s) = frame s"
  by (simp add: frame_def postJob_def settle_def split: option.splits mode.splits)

lemma frame_settle: "frame (settle j v s) = frame s"
  by (simp add: frame_def settle_def split: option.splits)

lemma frame_emitNoJobsRunning: "frame (emitNoJobsRunning s) = frame s"
  by (simp add: frame_def emitNoJobsRunning_def emit_def)

lemma frame_onMessage: "frame (onMessage r l s) = frame s"
proof -
  obtain t j m where l: "l = (t, j, m)" by (cases l) auto
  show ?thesis
    unfolding onMessage_def l Let_def
    by (simp add: frame_settle frame_emitNoJobsRunning frame_postJob split: list.splits)
      (simp add: frame_def)
qed

lemma frame_fold:
  assumes "\<And>x s. frame (f x s) = frame s"
  shows "frame (fold f xs s) = frame s"
  using assms by (induction xs arbitrary: s) simp_all

lemma frame_message: "frame (message t r s) = frame s"
  unfolding message_def by (simp add: frame_fold frame_onMessage) (simp add: frame_def)

lemma frame_onError: "frame (onError l s) = frame s"
  by (cases l) (simp add: onError_def frame_settle split: mode.splits)

lemma frame_workerError: "frame (workerError t s) = frame s"
  unfolding workerError_def by (simp add: frame_fold frame_onError) (simp add: frame_def)

lemma frame_dequeue: "frame (dequeue s) = frame s"
  unfolding dequeue_def Let_def
  by (simp add: frame_postJob split: list.splits) (simp add: frame_def)

lemma frame_drain: "frame (drain d s) = frame s"
  by (simp add: frame_def drain_def Let_def emit_def)

lemma frame_drainTimeout: "frame (drainTimeout d s) = frame s"
  by (simp add: frame_def drainTimeout_def)

lemma frame_kill: "frame (kill t s) = frame s"
  by (simp add: frame_def kill_def)

lemma frame_killTimeout: "frame (killTimeout s) = frame s"
  unfolding killTimeout_def
  by (simp add: frame_fold frame_kill split: list.splits) (simp add: frame_def)

lemma frame_startOne: "frame (startOne wh s) = frame s"
  by (simp add: frame_def startOne_def startThread_def newThread_def Let_def emit_def
      split: prod.splits ctor.splits)

lemma frame_startLoop: "frame (startLoop i n env s) = frame s"
  by (induction n arbitrary: i s) (simp_all add: frame_startOne)

lemma frame_startThreadsCall: "frame (startThreadsCall c w s) = frame s"
  by (simp add: frame_def startThreadsCall_def startThread_def newThread_def
      split: prod.splits ctor.splits)

lemma frame_startThreadsNext: "frame (startThreadsNext c h w s) = frame s"
  by (simp add: frame_def startThreadsNext_def startThread_def newThread_def Let_def emit_def
      split: option.splits prod.splits ctor.splits)

lemma frame_other:
  "frame (close s) = frame s" "frame (reopen s) = frame s" "frame (stopThreads s) = frame s"
  "frame (workerExit t s) = frame s" "frame (terminateTimeout t s) = frame s"
  "frame (startThreads env s) = frame s" "frame (notify fn s) = frame s"
  "frame (bump s) = frame s" "frame (preloaded s) = frame s"
  by (simp_all add: frame_startLoop startThreads_def)
     (simp_all add: frame_def close_def reopen_def closePool_def openPool_def stopThreads_def
        workerExit_def terminateTimeout_def notify_def emit_def bump_def bumpDeployCount_def
        preloaded_def)

lemma accounted_frame: "frame s' = frame s \<Longrightarrow> accounted s \<Longrightarrow> accounted s'"
  by (simp add: frame_def accounted_def)

lemma card_dom_upd_le:
  "finite (dom m) \<Longrightarrow> card (dom (m(j \<mapsto> a))) \<le> Suc (card (dom m))"
  by (simp add: card_insert_le_m1 card_insert_if)

lemma card_dom_del:
  "finite (dom m) \<Longrightarrow> m j = Some a \<Longrightarrow> Suc (card (dom (m(j := None)))) = card (dom m)"
proof -
  assume fin: "finite (dom m)" and mj: "m j = Some a"
  have "dom (m(j := None)) = dom m - {j}" by simp
  moreover have jm: "j \<in> dom m" using mj by auto
  moreover have "0 < card (dom m)" using fin jm by (auto simp: card_gt_0_iff)
  ultimately show ?thesis using fin by (simp del: dom_fun_upd)
qed

lemma threadAlloc_counters:
  "threadAlloc w p = (a, p') \<Longrightarrow>
     jobsQueued p' = jobsQueued p \<and> jobsRequested p' = jobsRequested p"
  by (auto simp: threadAlloc_def startThread_def newThread_def split: if_splits ctor.splits)

lemma accounted_run: "accounted s \<Longrightarrow> accounted (run j w s)"
proof -
  assume a: "accounted s"
  then have fin: "finite (dom (suspended s))"
    and le: "jobsQueued (poolState s) + card (dom (suspended s)) \<le> jobsRequested (poolState s)"
    by (simp_all add: accounted_def)
  show ?thesis
  proof (cases "closed (poolState s)")
    case True
    with fin le show ?thesis by (simp add: run_def Let_def enqueue_def accounted_def)
  next
    case False
    show ?thesis
    proof (cases "shift (freeThreads (poolState s))")
      case (Pair th rest)
      show ?thesis
      proof (cases th)
        case (Some t)
        with False Pair fin le show ?thesis
          by (simp add: run_def Let_def postJob_def accounted_def)
      next
        case None
        obtain a p' where ta: "threadAlloc w
            ((poolState s)\<lparr>jobsRequested := jobsRequested (poolState s) + 1, freeThreads := rest\<rparr>) = (a, p')"
          by (cases "threadAlloc w
            ((poolState s)\<lparr>jobsRequested := jobsRequested (poolState s) + 1, freeThreads := rest\<rparr>)") auto
        from threadAlloc_counters[OF ta]
        have c: "jobsQueued p' = jobsQueued (poolState s)"
          "jobsRequested p' = jobsRequested (poolState s) + 1" by simp_all
        from card_dom_upd_le[OF fin, of j a] le
        have "jobsQueued (poolState s) + card (dom ((suspended s)(j \<mapsto> a)))
                \<le> jobsRequested (poolState s) + 1" by simp
        with False Pair None ta c fin show ?thesis
          by (simp add: run_def Let_def accounted_def)
      qed
    qed
  qed
qed

lemma accounted_resume: "accounted s \<Longrightarrow> accounted (resume j h s)"
proof -
  assume a: "accounted s"
  then have fin: "finite (dom (suspended s))"
    and le: "jobsQueued (poolState s) + card (dom (suspended s)) \<le> jobsRequested (poolState s)"
    by (simp_all add: accounted_def)
  show ?thesis
  proof (cases "suspended s j")
    case None
    with a show ?thesis by (simp add: resume_def)
  next
    case (Some al)
    from card_dom_del[OF fin Some]
    have d: "Suc (card (dom ((suspended s)(j := None)))) = card (dom (suspended s))" .
    have fin': "finite (dom ((suspended s)(j := None)))" using fin by simp
    show ?thesis
    proof (cases "started al h")
      case None
      with Some d le fin' show ?thesis
        by (simp add: resume_def Let_def enqueue_def accounted_def del: dom_fun_upd fun_upd_apply)
    next
      case (Some t)
      with \<open>suspended s j = Some al\<close> d le fin' show ?thesis
        by (simp add: resume_def Let_def postJob_def emit_def accounted_def del: dom_fun_upd fun_upd_apply)
    qed
  qed
qed

lemma accounted_step: "accounted s \<Longrightarrow> accounted (step e s)"
  by (cases e)
    (simp_all add: accounted_run accounted_resume
       accounted_frame[OF frame_message] accounted_frame[OF frame_workerError]
       accounted_frame[OF frame_dequeue] accounted_frame[OF frame_drain]
       accounted_frame[OF frame_drainTimeout] accounted_frame[OF frame_killTimeout]
       accounted_frame[OF frame_other(1)] accounted_frame[OF frame_other(2)]
       accounted_frame[OF frame_other(3)] accounted_frame[OF frame_other(4)]
       accounted_frame[OF frame_other(5)] accounted_frame[OF frame_other(6)]
       accounted_frame[OF frame_other(7)] accounted_frame[OF frame_other(8)]
       accounted_frame[OF frame_other(9)] accounted_frame[OF frame_startOne]
       accounted_frame[OF frame_startThreadsCall] accounted_frame[OF frame_startThreadsNext])

lemma accounted_exec: "accounted s \<Longrightarrow> accounted (exec evs s)"
  unfolding exec_def by (induction evs arbitrary: s) (simp_all add: accounted_step)

lemma accounted_initial: "accounted (initial (ThreadPool nm opts))"
  by (simp add: accounted_def initial_def ThreadPool_def)

lemma log2floor_less: "n < 2 ^ Suc j \<Longrightarrow> log2floor n \<le> j"
proof (induction j arbitrary: n)
  case 0
  then show ?case by (subst log2floor.simps) simp
next
  case (Suc j)
  show ?case
  proof (cases "n < 2")
    case True
    then show ?thesis by (subst log2floor.simps) simp
  next
    case False
    have "n div 2 < 2 ^ Suc j" using Suc.prems by simp
    then have "log2floor (n div 2) \<le> j" by (rule Suc.IH)
    with False show ?thesis by (subst log2floor.simps) simp
  qed
qed

lemma rne_le:
  assumes "0 < d" and "0 \<le> n" and "n \<le> N * d"
  shows "0 \<le> rne n d \<and> rne n d \<le> N"
proof -
  have f0: "0 \<le> n div d" using assms(1,2) by (simp add: pos_imp_zdiv_nonneg_iff)
  have fN: "n div d \<le> N"
  proof -
    have "n div d \<le> (N * d) div d" using assms(1,3) by (intro zdiv_mono1) simp_all
    with assms(1) show ?thesis by simp
  qed
  show ?thesis
  proof (cases "n div d = N")
    case True
    have "n = d * (n div d) + n mod d" by simp
    with True have "n = d * N + n mod d" by simp
    moreover have "0 \<le> n mod d" using assms(1) by simp
    ultimately have "n mod d = 0" using assms(3) by (simp add: mult.commute)
    with True f0 assms(1) show ?thesis by (simp add: rne_def Let_def)
  next
    case False
    with fN have "n div d + 1 \<le> N" by simp
    with f0 fN show ?thesis by (auto simp: rne_def Let_def)
  qed
qed

lemma ilog2_le:
  assumes "0 < a" and "0 < b" and "a \<le> 2 ^ j * b"
  shows "ilog2 a b \<le> int j"
proof (cases "b \<le> a")
  case True
  have "a div b \<le> (2 ^ j * b) div b" using assms by (intro zdiv_mono1) simp_all
  then have "a div b \<le> 2 ^ j" using assms(2) by simp
  moreover have "(2::int) ^ j < 2 ^ Suc j" by simp
  ultimately have "a div b < 2 ^ Suc j" by linarith
  then have "log2floor (a div b) \<le> j" by (rule log2floor_less)
  with True show ?thesis by (simp add: ilog2_def)
next
  case False
  then show ?thesis by (simp add: ilog2_def)
qed

lemma nearest_double_le:
  assumes "0 \<le> a" and "0 < b" and "a \<le> N * b" and "N \<le> 2 ^ 52" and "0 \<le> N"
  shows "\<exists>m k. nearest_double a b = (m, - int k) \<and> 0 \<le> m \<and> m \<le> N * 2 ^ k"
proof (cases "a = 0")
  case True
  have "nearest_double a b = (0, - int 0)" using True by (simp add: nearest_double_def)
  moreover have "(0::int) \<le> N * 2 ^ 0" using assms(5) by simp
  ultimately show ?thesis by blast
next
  case False
  then have a: "0 < a" using assms(1) by simp
  have "a \<le> 2 ^ 52 * b"
  proof -
    have "N * b \<le> 2 ^ 52 * b" using assms(2,4) by (intro mult_right_mono) simp_all
    with assms(3) show ?thesis by simp
  qed
  then have "ilog2 a b \<le> 52" using ilog2_le[OF a assms(2), of 52] by simp
  then have e: "ilog2 a b - 52 \<le> 0" by simp
  show ?thesis
  proof (cases "ilog2 a b - 52 < 0")
    case True
    define k where "k = nat (- (ilog2 a b - 52))"
    have ke: "- int k = ilog2 a b - 52" using True by (simp add: k_def)
    have nd: "nearest_double a b = (rne (a * 2 ^ k) b, - int k)"
      using False True by (simp add: nearest_double_def Let_def k_def)
    have "a * 2 ^ k \<le> (N * 2 ^ k) * b"
    proof -
      have "a * 2 ^ k \<le> (N * b) * 2 ^ k" using assms(3) by (intro mult_right_mono) simp_all
      then show ?thesis by (simp add: mult.assoc mult.left_commute mult.commute)
    qed
    moreover have "0 \<le> a * 2 ^ k" using assms(1) by simp
    ultimately have "0 \<le> rne (a * 2 ^ k) b \<and> rne (a * 2 ^ k) b \<le> N * 2 ^ k"
      using assms(2) by (intro rne_le) simp_all
    with nd show ?thesis by blast
  next
    case False
    with e have z: "ilog2 a b - 52 = 0" by simp
    have nd: "nearest_double a b = (rne a b, - int 0)"
      using \<open>a \<noteq> 0\<close> z by (simp add: nearest_double_def Let_def)
    have "0 \<le> rne a b \<and> rne a b \<le> N"
      using assms by (intro rne_le) simp_all
    then have "0 \<le> rne a b \<and> rne a b \<le> N * 2 ^ 0" by simp
    with nd show ?thesis by blast
  qed
qed

lemma Math_round_le:
  assumes "0 \<le> m" and "m \<le> N * 2 ^ k"
  shows "Math_round (m, - int k) \<le> N"
proof (cases "k = 0")
  case True
  with assms show ?thesis by (simp add: Math_round_def)
next
  case False
  let ?D = "(2::int) ^ k"
  have D: "0 < ?D" by simp
  have "2 * m + ?D \<le> N * (2 * ?D) + ?D" using assms(2) by simp
  then have "(2 * m + ?D) div (2 * ?D) \<le> (N * (2 * ?D) + ?D) div (2 * ?D)"
    using D by (intro zdiv_mono1) simp_all
  also have "(N * (2 * ?D) + ?D) div (2 * ?D) = N"
    using D by (simp add: div_pos_pos_trivial)
  finally have "(2 * m + ?D) div (2 * ?D) \<le> N" .
  then show ?thesis using False by (simp add: Math_round_def)
qed

lemma fmul_le:
  assumes "0 \<le> m" and "m \<le> 2 ^ k"
  shows "\<exists>m' k'. fmul (m, - int k) 100 = (m', - int k') \<and> 0 \<le> m' \<and> m' \<le> 100 * 2 ^ k'"
proof (cases "k = 0")
  case True
  with assms have "0 \<le> 100 * m * 2 ^ nat 0" "100 * m * 2 ^ nat 0 \<le> 100 * 1" by simp_all
  then have "\<exists>m' k'. nearest_double (100 * m * 2 ^ nat 0) 1 = (m', - int k') \<and> 0 \<le> m' \<and> m' \<le> 100 * 2 ^ k'"
    by (intro nearest_double_le) simp_all
  with True show ?thesis by (simp add: fmul_def)
next
  case False
  have "100 * m \<le> 100 * 2 ^ k" using assms(2) by simp
  moreover have "0 \<le> 100 * m" using assms(1) by simp
  ultimately have "\<exists>m' k'. nearest_double (100 * m) (2 ^ k) = (m', - int k') \<and> 0 \<le> m' \<and> m' \<le> 100 * 2 ^ k'"
    by (intro nearest_double_le) simp_all
  then show ?thesis using False by (simp add: fmul_def)
qed

lemma round_percent_integer: "q \<le> r \<Longrightarrow> round_percent q r = Integer k \<Longrightarrow> k \<le> 100"
proof -
  assume qr: "q \<le> r" and rp: "round_percent q r = Integer k"
  then have r0: "r \<noteq> 0" by (auto simp: round_percent_def split: if_splits)
  have "\<exists>m j. nearest_double (int q) (int r) = (m, - int j) \<and> 0 \<le> m \<and> m \<le> 1 * 2 ^ j"
    using qr r0 by (intro nearest_double_le) simp_all
  then obtain m j where d: "fdiv q r = (m, - int j)" "0 \<le> m" "m \<le> 2 ^ j"
    by (auto simp: fdiv_def)
  from fmul_le[OF d(2,3)] obtain m' j' where
    t: "fmul (m, - int j) 100 = (m', - int j')" "0 \<le> m'" "m' \<le> 100 * 2 ^ j'" by auto
  have "Math_round (m', - int j') \<le> 100" by (rule Math_round_le[OF t(2,3)])
  with rp r0 d t show ?thesis by (simp add: round_percent_def)
qed

lemma round_percent_le: "q \<le> r \<Longrightarrow> \<not> gt_int (round_percent q r) 100"
proof (cases "round_percent q r")
  case (Integer k)
  assume "q \<le> r"
  from round_percent_integer[OF this Integer] Integer show ?thesis by simp
next
  case PosInfinity
  assume "q \<le> r"
  with PosInfinity show ?thesis by (auto simp: round_percent_def split: if_splits)
qed (auto simp: round_percent_def split: if_splits)

text \<open>The rates of the example pools; the third differs from the exact quotient.\<close>

lemma round_percent_values:
  "round_percent 0 0 = NaN"
  "round_percent 0 (Suc (Suc 0)) = Integer 0" "round_percent 0 2 = Integer 0"
  "round_percent (Suc 0) (Suc (Suc 0)) = Integer 50" "round_percent (Suc 0) 2 = Integer 50"
  "round_percent (Suc (Suc 0)) (Suc (Suc 0)) = Integer 100" "round_percent 2 2 = Integer 100"
  "round_percent (Suc 0) 4 = Integer 25"
  "round_percent (Suc 0) 3 = Integer 33"
  "round_percent 23 40 = Integer 57"
  by code_simp+

subsection \<open>The promise that run returns\<close>

lemma rejected_resolve: "rejected (Some (resolve v q)) = rejected (Some q)"
  by (cases q) (simp_all add: resolve_def)

lemma unrejected_settle: "unrejected s \<Longrightarrow> unrejected (settle j v s)"
proof (cases "promises s j")
  case None
  then show "unrejected s \<Longrightarrow> unrejected (settle j v s)" by (simp add: settle_def)
next
  case (Some q)
  assume u: "unrejected s"
  then have "\<not> rejected (Some q)" using Some by (metis unrejected_def)
  with u Some show "unrejected (settle j v s)"
    by (simp add: unrejected_def settle_def rejected_resolve)
qed

lemma unrejected_same: "promises s' = promises s \<Longrightarrow> unrejected s \<Longrightarrow> unrejected s'"
  by (simp add: unrejected_def)

lemma unrejected_postJob: "unrejected s \<Longrightarrow> unrejected (postJob th j m s)"
  by (cases th; cases m) (simp_all add: postJob_def unrejected_settle, simp_all add: unrejected_def)

lemma unrejected_enqueue: "unrejected s \<Longrightarrow> unrejected (enqueue j s)"
  by (simp add: unrejected_def enqueue_def)

lemma unrejected_emitNoJobsRunning: "unrejected s \<Longrightarrow> unrejected (emitNoJobsRunning s)"
  by (simp add: unrejected_def emitNoJobsRunning_def emit_def)

lemma unrejected_onMessage: "unrejected s \<Longrightarrow> unrejected (onMessage r l s)"
proof -
  assume u: "unrejected s"
  obtain t j m where l: "l = (t, j, m)" by (cases l) auto
  let ?p = "poolState s"
  let ?s1 = "case waitingJobs ?p of
               [] \<Rightarrow> s\<lparr>poolState := ?p\<lparr>freeThreads := freeThreads ?p @ [Some t]\<rparr>\<rparr>
             | k # ks \<Rightarrow> postJob (Some t) k Queued (s\<lparr>poolState := ?p\<lparr>waitingJobs := ks\<rparr>\<rparr>)"
  have u1: "unrejected ?s1"
  proof (cases "waitingJobs ?p")
    case Nil
    with u show ?thesis by (simp add: unrejected_def)
  next
    case (Cons k ks)
    have "unrejected (s\<lparr>poolState := ?p\<lparr>waitingJobs := ks\<rparr>\<rparr>)"
      using u by (simp add: unrejected_def)
    with Cons show ?thesis by (simp add: unrejected_postJob)
  qed
  have u2: "unrejected (if noJobsRunning (poolState ?s1) then emitNoJobsRunning ?s1 else ?s1)"
    using u1 by (simp add: unrejected_emitNoJobsRunning)
  show ?thesis
    unfolding onMessage_def l Let_def prod.case
    by (rule unrejected_settle) (rule u2)
qed

lemma unrejected_fold:
  assumes "\<And>x s. unrejected s \<Longrightarrow> unrejected (f x s)"
  shows "unrejected s \<Longrightarrow> unrejected (fold f xs s)"
  using assms by (induction xs arbitrary: s) simp_all

lemma unrejected_message: "unrejected s \<Longrightarrow> unrejected (message t r s)"
  unfolding message_def
  by (rule unrejected_fold) (simp_all add: unrejected_onMessage, simp add: unrejected_def)

lemma unrejected_onError: "unrejected s \<Longrightarrow> unrejected (onError l s)"
  by (cases l) (simp add: onError_def unrejected_settle split: mode.splits)

lemma unrejected_workerError: "unrejected s \<Longrightarrow> unrejected (workerError t s)"
  unfolding workerError_def
  by (rule unrejected_fold) (simp_all add: unrejected_onError, simp add: unrejected_def)

lemma unrejected_dequeue: "unrejected s \<Longrightarrow> unrejected (dequeue s)"
proof -
  assume u: "unrejected s"
  show ?thesis
  proof (cases "freeThreads (poolState s)")
    case Nil
    with u show ?thesis by (simp add: dequeue_def)
  next
    case (Cons th ts)
    note ft = this
    show ?thesis
    proof (cases "waitingJobs (poolState s)")
      case Nil
      with u ft show ?thesis by (simp add: dequeue_def)
    next
      case (Cons k ks)
      have "unrejected (s\<lparr>poolState := (poolState s)\<lparr>freeThreads := ts, waitingJobs := ks\<rparr>\<rparr>)"
        using u by (simp add: unrejected_def)
      with ft Cons show ?thesis by (simp add: dequeue_def unrejected_postJob)
    qed
  qed
qed

lemma unrejected_run: "unrejected s \<Longrightarrow> unrejected (run j w s)"
proof -
  assume u: "unrejected s"
  let ?p = "(poolState s)\<lparr>jobsRequested := jobsRequested (poolState s) + 1\<rparr>"
  let ?s1 = "s\<lparr>poolState := ?p, promises := (promises s)(j \<mapsto> Pending)\<rparr>"
  have u1: "unrejected ?s1" using u by (simp add: unrejected_def)
  show ?thesis
  proof (cases "closed (poolState s)")
    case True
    with u1 show ?thesis by (simp add: run_def Let_def unrejected_enqueue)
  next
    case False
    obtain th rest where sh: "shift (freeThreads (poolState s)) = (th, rest)"
      by (cases "shift (freeThreads (poolState s))") auto
    show ?thesis
    proof (cases th)
      case (Some t)
      have "unrejected (?s1\<lparr>poolState := ?p\<lparr>freeThreads := rest\<rparr>\<rparr>)"
        using u1 by (simp add: unrejected_def)
      then have "unrejected (postJob (Some t) j Direct (?s1\<lparr>poolState := ?p\<lparr>freeThreads := rest\<rparr>\<rparr>))"
        by (rule unrejected_postJob)
      with False sh Some show ?thesis by (simp add: run_def Let_def)
    next
      case None
      obtain a p' where ta: "threadAlloc w (?p\<lparr>freeThreads := rest\<rparr>) = (a, p')"
        by (cases "threadAlloc w (?p\<lparr>freeThreads := rest\<rparr>)") auto
      have "unrejected (?s1\<lparr>poolState := p', suspended := (suspended ?s1)(j \<mapsto> a)\<rparr>)"
        using u1 by (simp add: unrejected_def)
      with False sh None ta show ?thesis by (simp add: run_def Let_def)
    qed
  qed
qed

lemma unrejected_resume: "unrejected s \<Longrightarrow> unrejected (resume j h s)"
proof -
  assume u: "unrejected s"
  show ?thesis
  proof (cases "suspended s j")
    case None
    with u show ?thesis by (simp add: resume_def)
  next
    case (Some a)
    have u1: "unrejected (s\<lparr>suspended := (suspended s)(j := None)\<rparr>)"
      using u by (simp add: unrejected_def)
    then have u2: "unrejected (emit ''aegis-up'' (s\<lparr>suspended := (suspended s)(j := None)\<rparr>))"
      by (simp add: unrejected_def emit_def)
    show ?thesis
      using Some u1 u2
      by (cases "started a h") (simp_all add: resume_def Let_def unrejected_enqueue unrejected_postJob)
  qed
qed

lemma promises_kill: "promises (kill t s) = promises s"
  by (simp add: kill_def)

lemma promises_fold:
  assumes "\<And>x s. promises (f x s) = promises s"
  shows "promises (fold f xs s) = promises s"
  using assms by (induction xs arbitrary: s) simp_all

lemma promises_killTimeout: "promises (killTimeout s) = promises s"
  by (simp add: killTimeout_def promises_fold promises_kill split: list.splits)

lemma promises_startThreadsCall: "promises (startThreadsCall c w s) = promises s"
  by (simp add: startThreadsCall_def startThread_def newThread_def
      split: prod.splits ctor.splits)

lemma promises_startThreadsNext: "promises (startThreadsNext c h w s) = promises s"
  by (simp add: startThreadsNext_def startThread_def newThread_def Let_def emit_def
      split: option.splits prod.splits ctor.splits)

lemma promises_startOne: "promises (startOne wh s) = promises s"
  by (simp add: startOne_def startThread_def newThread_def Let_def emit_def
      split: prod.splits ctor.splits)

lemma promises_startLoop: "promises (startLoop i n env s) = promises s"
  by (induction n arbitrary: i s) (simp_all add: promises_startOne)

lemma promises_other:
  "promises (close s) = promises s" "promises (reopen s) = promises s"
  "promises (drain d s) = promises s" "promises (drainTimeout d s) = promises s"
  "promises (stopThreads s) = promises s" "promises (workerExit t s) = promises s"
  "promises (terminateTimeout t s) = promises s" "promises (startThreads env s) = promises s"
  "promises (notify fn s) = promises s" "promises (bump s) = promises s"
  "promises (preloaded s) = promises s"
  by (simp_all add: close_def reopen_def drain_def Let_def emit_def drainTimeout_def
      stopThreads_def workerExit_def terminateTimeout_def startThreads_def promises_startLoop
      notify_def bump_def preloaded_def)

lemma unrejected_step: "unrejected s \<Longrightarrow> unrejected (step e s)"
  by (cases e)
    (simp_all add: unrejected_run unrejected_resume unrejected_message unrejected_workerError
       unrejected_dequeue unrejected_same[OF promises_killTimeout]
       unrejected_same[OF promises_other(1)] unrejected_same[OF promises_other(2)]
       unrejected_same[OF promises_other(3)] unrejected_same[OF promises_other(4)]
       unrejected_same[OF promises_other(5)] unrejected_same[OF promises_other(6)]
       unrejected_same[OF promises_other(7)] unrejected_same[OF promises_other(8)]
       unrejected_same[OF promises_other(9)] unrejected_same[OF promises_other(10)]
       unrejected_same[OF promises_other(11)] unrejected_same[OF promises_startOne]
       unrejected_same[OF promises_startThreadsCall]
       unrejected_same[OF promises_startThreadsNext])

lemma unrejected_exec: "unrejected s \<Longrightarrow> unrejected (exec evs s)"
  unfolding exec_def by (induction evs arbitrary: s) (simp_all add: unrejected_step)

lemma unrejected_initial: "unrejected (initial p)"
  by (simp add: unrejected_def initial_def)

subsection \<open>Replies and submissions\<close>

lemma promises_emitNoJobsRunning: "promises (emitNoJobsRunning s) = promises s"
  by (simp add: emitNoJobsRunning_def emit_def)

lemma onMessage_promise:
  "promises s j = Some Pending \<Longrightarrow>
     promises (onMessage r (t, j, m) s) j = Some (Fulfilled (Some r))"
  by (simp add: onMessage_def Let_def settle_def postJob_def resolve_def
      promises_emitNoJobsRunning split: list.splits)

lemma poolState_settle: "poolState (settle j v s) = poolState s"
  by (simp add: settle_def split: option.splits)

lemma listeners_settle: "listeners (settle j v s) = listeners s"
  by (simp add: settle_def split: option.splits)

lemma poolState_emitNoJobsRunning: "poolState (emitNoJobsRunning s) = poolState s"
  by (simp add: emitNoJobsRunning_def emit_def)

lemma listeners_emitNoJobsRunning: "listeners (emitNoJobsRunning s) = listeners s"
  by (simp add: emitNoJobsRunning_def emit_def)

lemma onMessage_idle:
  "waitingJobs (poolState s) = [] \<Longrightarrow>
     poolState (onMessage r (t, j, m) s)
       = (poolState s)\<lparr>freeThreads := freeThreads (poolState s) @ [Some t]\<rparr>
     \<and> listeners (onMessage r (t, j, m) s) = listeners s"
  by (simp add: onMessage_def Let_def poolState_settle listeners_settle
      poolState_emitNoJobsRunning listeners_emitNoJobsRunning)

lemma onMessage_handover:
  "waitingJobs (poolState s) = k # ks \<Longrightarrow>
     poolState (onMessage r (t, j, m) s) = (poolState s)\<lparr>waitingJobs := ks\<rparr>
     \<and> listeners (onMessage r (t, j, m) s) = listeners s @ [(t, k, Queued)]"
  by (simp add: onMessage_def Let_def poolState_settle listeners_settle postJob_def
      poolState_emitNoJobsRunning listeners_emitNoJobsRunning)

lemma message_single:
  "filter (\<lambda>l. fst l = t) (listeners s) = [l] \<Longrightarrow>
     message t r s = onMessage r l (s\<lparr>listeners := filter (\<lambda>l. fst l \<noteq> t) (listeners s)\<rparr>)"
  by (simp add: message_def)

lemma threadAlloc_requested:
  "startRequested (Some (fst (threadAlloc w p))) \<longleftrightarrow>
     (totalThreads p = 0 \<or>
      (int (totalThreads p) < maxThreads p \<and>
       gt_int (round_percent (jobsQueued p) (jobsRequested p)) (queueTolerance p)))"
  by (cases w)
    (simp_all add: threadAlloc_def startThread_def newThread_def poolSize_def maxPoolSize_def
      jobQueueRate_def maxJobQueueRate_def)

lemma run_no_free_thread:
  assumes "\<not> closed (poolState s)" and "fst (shift (freeThreads (poolState s))) = None"
  shows "suspended (run j w s) j =
           Some (fst (threadAlloc w ((poolState s)
             \<lparr>jobsRequested := jobsRequested (poolState s) + 1,
              freeThreads := snd (shift (freeThreads (poolState s)))\<rparr>)))"
    and "poolState (run j w s) =
           snd (threadAlloc w ((poolState s)
             \<lparr>jobsRequested := jobsRequested (poolState s) + 1,
              freeThreads := snd (shift (freeThreads (poolState s)))\<rparr>))"
  using assms
  by (cases "shift (freeThreads (poolState s))"; simp add: run_def Let_def split: prod.splits)+

lemma run_closed:
  assumes "closed (poolState s)"
  shows "run j w s =
           enqueue j (s\<lparr>poolState := (poolState s)\<lparr>jobsRequested := jobsRequested (poolState s) + 1\<rparr>,
                         promises := (promises s)(j \<mapsto> Pending)\<rparr>)"
  using assms by (simp add: run_def Let_def)

lemma threadAlloc_grows:
  "threadAlloc w p =
     (if totalThreads p = 0 \<or>
         (int (totalThreads p) < maxThreads p \<and>
          gt_int (round_percent (jobsQueued p) (jobsRequested p)) (queueTolerance p))
      then (case w of
              Throws \<Rightarrow> (CtorThrew, p)
            | Constructs \<Rightarrow> (AwaitingReady, p\<lparr>totalThreads := totalThreads p + 1\<rparr>))
      else (NotStarted, p))"
  by (simp add: threadAlloc_def startThread_def newThread_def poolSize_def maxPoolSize_def
      jobQueueRate_def maxJobQueueRate_def)

subsection \<open>The example pools\<close>

lemmas run_defs = exec_def run_def resume_def close_def reopen_def closePool_def openPool_def
      enqueue_def initial_def ThreadPool_def tolerance50_def defaults_def or_default_def Let_def
      threadAlloc_def startThread_def newThread_def started_def poolSize_def maxPoolSize_def
      jobQueueRate_def maxJobQueueRate_def round_percent_values postJob_def emit_def
      message_def onMessage_def settle_def resolve_def noJobsRunning_def emitNoJobsRunning_def
      catch_log_def workerError_def onError_def
      DEFAULT_THREADPOOL_MAX_def DEFAULT_THREADPOOL_MIN_def DEFAULT_JOBQUEUE_TOLERANCE_def

lemma closedPool_state:
  "poolState closedPool =
     \<lparr>freeThreads = [], waitingJobs = [], name = ''ORDER'', maxThreads = 2, minThreads = 1,
      queueTolerance = 25, closed = True, reloads = 0, jobsRequested = 0, jobsQueued = 0,
      totalThreads = 0\<rparr>"
  "suspended closedPool = Map.empty"
  by (simp_all add: closedPool_def run_defs)

lemma tiedPool_state:
  "poolState tiedPool =
     \<lparr>freeThreads = [], waitingJobs = [10], name = ''ORDER'', maxThreads = 2, minThreads = 1,
      queueTolerance = 50, closed = False, reloads = 0, jobsRequested = 1, jobsQueued = 1,
      totalThreads = 0\<rparr>"
  "suspended tiedPool = Map.empty"
  by (simp_all add: tiedPool_def run_defs)

lemma busyPool_state:
  "poolState busyPool =
     \<lparr>freeThreads = [], waitingJobs = [], name = ''ORDER'', maxThreads = 2, minThreads = 1,
      queueTolerance = 25, closed = False, reloads = 0, jobsRequested = 1, jobsQueued = 0,
      totalThreads = 1\<rparr>"
  "listeners busyPool = [(7, 10, Direct)]"
  "promises busyPool 10 = Some Pending"
  "suspended busyPool = Map.empty"
  by (simp_all add: busyPool_def run_defs)

lemma quarterPool_state:
  "poolState quarterPool =
     \<lparr>freeThreads = [], waitingJobs = [], name = ''ORDER'', maxThreads = 2, minThreads = 1,
      queueTolerance = 25, closed = False, reloads = 0, jobsRequested = 3, jobsQueued = 1,
      totalThreads = 1\<rparr>"
  "listeners quarterPool = [(7, 30, Direct)]"
  by (simp_all add: quarterPool_def busyPool_def run_defs)

lemma loadedPool_state:
  "poolState loadedPool =
     \<lparr>freeThreads = [], waitingJobs = [20], name = ''ORDER'', maxThreads = 2, minThreads = 1,
      queueTolerance = 25, closed = False, reloads = 0, jobsRequested = 2, jobsQueued = 1,
      totalThreads = 1\<rparr>"
  "listeners loadedPool = [(7, 10, Direct)]"
  by (simp_all add: loadedPool_def busyPool_def run_defs)

lemma closedBusyPool_state:
  "poolState closedBusyPool =
     \<lparr>freeThreads = [], waitingJobs = [], name = ''ORDER'', maxThreads = 2, minThreads = 1,
      queueTolerance = 25, closed = True, reloads = 0, jobsRequested = 1, jobsQueued = 0,
      totalThreads = 1\<rparr>"
  "listeners closedBusyPool = [(7, 10, Direct)]"
  by (simp_all add: closedBusyPool_def exec_def close_def closePool_def busyPool_state)

lemma idlePool_state:
  "poolState idlePool =
     \<lparr>freeThreads = [Some 7], waitingJobs = [], name = ''ORDER'', maxThreads = 2, minThreads = 1,
      queueTolerance = 25, closed = False, reloads = 0, jobsRequested = 1, jobsQueued = 0,
      totalThreads = 1\<rparr>"
  "listeners idlePool = []"
  "killTimers idlePool = []"
  "stopping idlePool = []"
  "ended idlePool = []"
  by (simp_all add: idlePool_def busyPool_def run_defs)

lemmas start_defs = startThreadsCall_def startThreadsNext_def preloaded_def preloadingTwo_def
      minPoolSize_def

lemma limpingPool_state:
  "poolState limpingPool =
     \<lparr>freeThreads = [None, Some 9], waitingJobs = [], name = ''ORDER'', maxThreads = 2,
      minThreads = 2, queueTolerance = 25, closed = False, reloads = 0, jobsRequested = 0,
      jobsQueued = 0, totalThreads = 2\<rparr>"
  "listeners limpingPool = []"
  "starts limpingPool 0 = Some (Fulfilled This)"
  "killTimers limpingPool = []"
  "stopping limpingPool = []"
  "ended limpingPool = []"
  "drains limpingPool = Map.empty"
  "drainListeners limpingPool = []"
  by (simp_all add: limpingPool_def run_defs start_defs)

lemma overtakenPool_state:
  "poolState overtakenPool =
     \<lparr>freeThreads = [Some 9], waitingJobs = [], name = ''ORDER'', maxThreads = 2,
      minThreads = 2, queueTolerance = 25, closed = False, reloads = 0, jobsRequested = 1,
      jobsQueued = 0, totalThreads = 1\<rparr>"
  "listeners overtakenPool = [(8, 10, Direct)]"
  "starts overtakenPool 0 = Some (Fulfilled This)"
  "killTimers overtakenPool = []"
  "stopping overtakenPool = []"
  "ended overtakenPool = []"
  "drains overtakenPool = Map.empty"
  "drainListeners overtakenPool = []"
  by (simp_all add: overtakenPool_def run_defs start_defs)


subsection \<open>Draining\<close>

lemma drain_open:
  "\<not> closed (poolState s) \<Longrightarrow> drains (drain d s) d = Some (Rejected ''[object Object]'')"
  by (simp add: drain_def Let_def emit_def)

lemma drain_idle:
  "closed (poolState s) \<Longrightarrow> noJobsRunning (poolState s) \<Longrightarrow>
     drains (drain d s) d = Some (Fulfilled (Some This))"
  by (simp add: drain_def Let_def emit_def catch_log_def resolve_def)

lemma drain_waiting:
  assumes "closed (poolState s)" and "\<not> noJobsRunning (poolState s)"
  shows "drains (drain d s) d = Some Pending"
    and "d \<in> set (drainListeners (drain d s))"
    and "d \<in> set (drainTimers (drain d s))"
    and "poolState (drain d s) = poolState s"
    and "listeners (drain d s) = listeners s"
  using assms by (simp_all add: drain_def Let_def emit_def)

lemma emitNoJobsRunning_drains:
  "d \<in> set (drainListeners s) \<Longrightarrow> drains s d = Some Pending \<Longrightarrow>
     drains (emitNoJobsRunning s) d = Some (Fulfilled (Some This))"
  by (simp add: emitNoJobsRunning_def emit_def catch_log_def resolve_def)

lemma drainTimeout_drains:
  "d \<in> set (drainTimers s) \<Longrightarrow> drains s d = Some Pending \<Longrightarrow>
     drains (drainTimeout d s) d = Some (Fulfilled None)"
  by (simp add: drainTimeout_def catch_log_def reject_def)

lemma drains_settle: "drains (settle j v s) = drains s"
  by (simp add: settle_def split: option.splits)

lemma onMessage_last_job:
  assumes "waitingJobs (poolState s) = []"
    and "totalThreads (poolState s) = length (freeThreads (poolState s)) + 1"
  shows "drains (onMessage r (t, j, m) s) = drains (emitNoJobsRunning s)"
  using assms
  by (simp add: onMessage_def Let_def drains_settle noJobsRunning_def)
     (simp add: emitNoJobsRunning_def emit_def cong: if_cong)

subsection \<open>Starting and stopping\<close>

lemma startOne_pool:
  "poolState (startOne wh s) =
     (poolState s)
       \<lparr>totalThreads := totalThreads (poolState s) + (if fst wh = Constructs then 1 else 0),
        freeThreads := freeThreads (poolState s) @ [startResult wh]\<rparr>"
  by (cases "fst wh"; cases "snd wh")
    (simp_all add: startOne_def startThread_def newThread_def started_def startResult_def
      Let_def emit_def)

lemma startLoop_pool:
  "poolState (startLoop i n env s) =
     (poolState s)
       \<lparr>totalThreads := totalThreads (poolState s)
           + length (filter (\<lambda>k. fst (env k) = Constructs) [i..<i + n]),
        freeThreads := freeThreads (poolState s) @ map (\<lambda>k. startResult (env k)) [i..<i + n]\<rparr>"
proof (induction n arbitrary: i s)
  case 0
  show ?case by simp
next
  case (Suc n)
  have up: "[i..<i + Suc n] = i # [Suc i..<Suc i + n]"
    by (simp add: upt_rec)
  show ?case
    unfolding startLoop.simps Suc.IH up
    by (simp add: startOne_pool)
qed

lemma stopping_fold_kill: "stopping (fold kill ts s) = stopping s @ ts"
  by (induction ts arbitrary: s) (simp_all add: kill_def)

lemma poolState_fold_kill: "poolState (fold kill ts s) = poolState s"
  by (induction ts arbitrary: s) (simp_all add: kill_def)

lemma ended_fold_kill: "ended (fold kill ts s) = ended s"
  by (induction ts arbitrary: s) (simp_all add: kill_def)

lemma takeWhile_defined: "None \<notin> set xs \<Longrightarrow> takeWhile (\<lambda>th. th \<noteq> None) xs = xs"
proof (induction xs)
  case Nil
  show ?case by simp
next
  case (Cons a xs)
  then show ?case by (cases a) simp_all
qed

lemma filter_defined: "None \<notin> set xs \<Longrightarrow> filter (\<lambda>th. th \<noteq> None) xs = xs"
proof (induction xs)
  case Nil
  show ?case by simp
next
  case (Cons a xs)
  then show ?case by (cases a) simp_all
qed

lemma killTimers_fold_kill: "killTimers (fold kill ts s) = killTimers s"
  by (induction ts arbitrary: s) (simp_all add: kill_def)

lemma killTimeout_next:
  "killTimers s = b # bs \<Longrightarrow>
     killTimers (killTimeout s) = bs
     \<and> stopping (killTimeout s) = stopping s @ map the (takeWhile (\<lambda>th. th \<noteq> None) b)
     \<and> poolState (killTimeout s) = poolState s"
  by (simp add: killTimeout_def killTimers_fold_kill stopping_fold_kill poolState_fold_kill
      del: not_None_eq)

lemma killTimeout_all:
  "stopping ((killTimeout ^^ length (killTimers s)) s)
     = stopping s @ concat (map (\<lambda>b. map the (takeWhile (\<lambda>th. th \<noteq> None) b)) (killTimers s))
   \<and> poolState ((killTimeout ^^ length (killTimers s)) s) = poolState s"
proof (induction "killTimers s" arbitrary: s)
  case Nil
  then show ?case by simp
next
  case (Cons b bs)
  note n = killTimeout_next[OF Cons.hyps(2)[symmetric]]
  have bs: "bs = killTimers (killTimeout s)" using n by simp
  have len: "length (killTimers s) = Suc (length (killTimers (killTimeout s)))"
    using Cons.hyps(2)[symmetric] n by simp
  show ?case
    unfolding len funpow_Suc_right o_apply
    using Cons.hyps(1)[OF bs] n Cons.hyps(2)[symmetric]
    by (simp del: not_None_eq)
qed

text \<open>
  When no job runs and the free stack holds Threads only, every Thread of the pool is on
  the array that \<open>stopThreads\<close> leaves to its timer, and is sent \<open>shutdown\<close> when the timers
  have fired.
\<close>

lemma stopThreads_stops_free_threads:
  assumes drained: "listeners s = []"
    and threads: "None \<notin> set (freeThreads (poolState s))"
  shows "freeThreads (poolState (stopThreads s)) = []
     \<and> totalThreads (poolState (stopThreads s)) = 0
     \<and> stopping (stopThreads s) = stopping s
     \<and> ended (stopThreads s) = ended s
     \<and> killTimers (stopThreads s) = killTimers s @ [freeThreads (poolState s)]
     \<and> set (poolThreads s)
          \<subseteq> set (stopping ((killTimeout ^^ Suc (length (killTimers s))) (stopThreads s)))
     \<and> freeThreads (poolState ((killTimeout ^^ Suc (length (killTimers s))) (stopThreads s))) = []
     \<and> (\<forall>t \<in> set (poolThreads s).
          (t, Exited) \<in> set (ended (workerExit t
              ((killTimeout ^^ Suc (length (killTimers s))) (stopThreads s))))
          \<and> (t, Terminated) \<in> set (ended (terminateTimeout t
              ((killTimeout ^^ Suc (length (killTimers s))) (stopThreads s)))))"
proof -
  let ?s1 = "stopThreads s"
  let ?s2 = "(killTimeout ^^ Suc (length (killTimers s))) ?s1"
  have pt: "poolThreads s = map the (freeThreads (poolState s))"
    using drained threads by (simp add: poolThreads_def filter_defined del: not_None_eq)
  have kt: "killTimers ?s1 = killTimers s @ [freeThreads (poolState s)]"
    by (simp add: stopThreads_def)
  then have len: "length (killTimers ?s1) = Suc (length (killTimers s))" by simp
  note all = killTimeout_all[of ?s1, unfolded len]
  have st: "set (poolThreads s) \<subseteq> set (stopping ?s2)"
    using all threads by (auto simp add: kt pt takeWhile_defined simp del: not_None_eq funpow.simps)
  have fr: "freeThreads (poolState ?s2) = []"
    using all by (simp add: stopThreads_def del: funpow.simps)
  have en: "(t, Exited) \<in> set (ended (workerExit t ?s2))
          \<and> (t, Terminated) \<in> set (ended (terminateTimeout t ?s2))"
    if "t \<in> set (poolThreads s)" for t
  proof -
    have "t \<in> set (stopping ?s2)" using that st by blast
    then show ?thesis by (simp add: workerExit_def terminateTimeout_def del: funpow.simps)
  qed
  have first: "freeThreads (poolState ?s1) = [] \<and> totalThreads (poolState ?s1) = 0
     \<and> stopping ?s1 = stopping s \<and> ended ?s1 = ended s"
    by (simp add: stopThreads_def)
  from first kt st fr en show ?thesis by blast
qed

subsection \<open>The calls of startThreads\<close>

lemma progress_settle: "progress (settle j v s) = progress s"
  by (simp add: progress_def settle_def split: option.splits)

lemma progress_postJob: "progress (postJob th j m s) = progress s"
  by (simp add: progress_def postJob_def settle_def split: option.splits mode.splits)

lemma progress_emitNoJobsRunning: "progress (emitNoJobsRunning s) = progress s"
  by (simp add: progress_def emitNoJobsRunning_def emit_def)

lemma progress_onMessage: "progress (onMessage r l s) = progress s"
proof -
  obtain t j m where l: "l = (t, j, m)" by (cases l) auto
  show ?thesis
    unfolding onMessage_def l Let_def
    by (simp add: progress_settle progress_emitNoJobsRunning progress_postJob split: list.splits)
      (simp add: progress_def)
qed

lemma progress_fold:
  assumes "\<And>x s. progress (f x s) = progress s"
  shows "progress (fold f xs s) = progress s"
  using assms by (induction xs arbitrary: s) simp_all

lemma progress_message: "progress (message t r s) = progress s"
  unfolding message_def by (simp add: progress_fold progress_onMessage) (simp add: progress_def)

lemma progress_onError: "progress (onError l s) = progress s"
  by (cases l) (simp add: onError_def progress_settle split: mode.splits)

lemma progress_workerError: "progress (workerError t s) = progress s"
  unfolding workerError_def by (simp add: progress_fold progress_onError) (simp add: progress_def)

lemma progress_dequeue: "progress (dequeue s) = progress s"
  unfolding dequeue_def Let_def
  by (simp add: progress_postJob split: list.splits) (simp add: progress_def)

lemma progress_run: "progress (run j w s) = progress s"
  unfolding run_def Let_def
  by (simp add: progress_postJob enqueue_def split: prod.splits option.splits)
    (simp add: progress_def)

lemma progress_resume: "progress (resume j h s) = progress s"
  unfolding resume_def Let_def
  by (simp add: progress_postJob enqueue_def split: option.splits)
    (simp add: progress_def emit_def)

lemma progress_kill: "progress (kill t s) = progress s"
  by (simp add: progress_def kill_def)

lemma progress_killTimeout: "progress (killTimeout s) = progress s"
  unfolding killTimeout_def
  by (simp add: progress_fold progress_kill split: list.splits) (simp add: progress_def)

lemma progress_startOne: "progress (startOne wh s) = progress s"
  by (simp add: progress_def startOne_def startThread_def newThread_def Let_def emit_def
      split: prod.splits ctor.splits)

lemma progress_startLoop: "progress (startLoop i n env s) = progress s"
  by (induction n arbitrary: i s) (simp_all add: progress_startOne)

lemma progress_other:
  "progress (close s) = progress s" "progress (reopen s) = progress s"
  "progress (stopThreads s) = progress s"
  "progress (workerExit t s) = progress s" "progress (terminateTimeout t s) = progress s"
  "progress (startThreads env s) = progress s" "progress (notify fn s) = progress s"
  "progress (bump s) = progress s" "progress (preloaded s) = progress s"
  "progress (drain d s) = progress s" "progress (drainTimeout d s) = progress s"
  by (simp_all add: progress_startLoop startThreads_def)
     (simp_all add: progress_def close_def reopen_def closePool_def openPool_def stopThreads_def
        workerExit_def terminateTimeout_def notify_def emit_def bump_def bumpDeployCount_def
        preloaded_def drain_def Let_def drainTimeout_def)

lemma progress_startThreadsCall:
  "c' \<noteq> c \<Longrightarrow> starting (startThreadsCall c' w s) c = starting s c
      \<and> starts (startThreadsCall c' w s) c = starts s c"
  by (simp add: startThreadsCall_def split: prod.splits)

lemma progress_startThreadsNext:
  "c' \<noteq> c \<Longrightarrow> starting (startThreadsNext c' h w s) c = starting s c
      \<and> starts (startThreadsNext c' h w s) c = starts s c"
  by (simp add: startThreadsNext_def Let_def emit_def split: option.splits prod.splits)

lemma progress_step:
  assumes "\<And>w. e \<noteq> StartCall c w" and "\<And>h w. e \<noteq> StartNext c h w"
  shows "starting (step e s) c = starting s c \<and> starts (step e s) c = starts s c"
proof (cases e)
  case (StartCall c' w)
  with assms(1) have "c' \<noteq> c" by auto
  with StartCall show ?thesis by (simp add: progress_startThreadsCall)
next
  case (StartNext c' h w)
  with assms(2) have "c' \<noteq> c" by auto
  with StartNext show ?thesis by (simp add: progress_startThreadsNext)
qed (insert progress_run progress_resume progress_message progress_workerError progress_dequeue
     progress_other progress_killTimeout progress_startOne, auto simp add: progress_def)


lemma starts_step_unrejected:
  assumes "\<not> rejected (starts s c)"
  shows "\<not> rejected (starts (step e s) c)"
proof (cases "(\<exists>w. e = StartCall c w) \<or> (\<exists>h w. e = StartNext c h w)")
  case False
  then have "starts (step e s) c = starts s c" using progress_step[of e c s] by blast
  with assms show ?thesis by simp
next
  case True
  then show ?thesis
  proof
    assume "\<exists>w. e = StartCall c w"
    then obtain w where e: "e = StartCall c w" by blast
    show ?thesis unfolding e by (simp add: startThreadsCall_def split: prod.splits)
  next
    assume "\<exists>h w. e = StartNext c h w"
    then obtain h w where e: "e = StartNext c h w" by blast
    have "\<not> rejected (map_option (resolve This) (starts s c))"
      using assms by (cases "starts s c" rule: rejected.cases) (simp_all add: resolve_def)
    with assms show ?thesis
      unfolding e
      by (simp add: startThreadsNext_def Let_def emit_def split: option.splits prod.splits)
  qed
qed

lemma starts_exec_unrejected:
  "\<not> rejected (starts s c) \<Longrightarrow> \<not> rejected (starts (exec evs s) c)"
  unfolding exec_def by (induction evs arbitrary: s) (simp_all add: starts_step_unrejected)

lemma startEvents_Suc:
  "exec (startEvents c env (Suc k)) s
     = startThreadsNext c (snd (env k)) (fst (env (Suc k))) (exec (startEvents c env k) s)"
  by (simp add: startEvents_def exec_def)

lemma started_startResult: "started (fst (newThread (fst wh) p)) (snd wh) = startResult wh"
  by (cases "fst wh"; cases "snd wh") (simp_all add: newThread_def started_def startResult_def)

lemma startEvents_suspended:
  assumes "k < nat (minThreads (poolState s))"
  shows "starting (exec (startEvents c env k) s) c
           = Some (k, fst (newThread (fst (env k)) (poolState s)))
     \<and> starts (exec (startEvents c env k) s) c = Some Pending
     \<and> poolState (exec (startEvents c env k) s)
         = (poolState s)
             \<lparr>totalThreads := totalThreads (poolState s)
                 + length (filter (\<lambda>i. fst (env i) = Constructs) [0..<Suc k]),
              freeThreads := freeThreads (poolState s) @ map (\<lambda>i. startResult (env i)) [0..<k]\<rparr>"
  using assms
proof (induction k)
  case 0
  then have m: "0 < minThreads (poolState s)" by simp
  show ?case
    using m
    by (cases "fst (env 0)")
      (simp_all add: startEvents_def exec_def startThreadsCall_def minPoolSize_def
        startThread_def newThread_def)
next
  case (Suc k)
  then have k: "k < nat (minThreads (poolState s))" by simp
  note ih = Suc.IH[OF k]
  have lt: "int (Suc k) < minThreads (poolState s)" using Suc.prems by linarith
  have sr: "started (fst (newThread (fst (env k)) (poolState s))) (snd (env k)) = startResult (env k)"
    by (rule started_startResult)
  have a: "fst (newThread w p) = fst (newThread w p')" for w p p'
    by (cases w) (simp_all add: newThread_def)
  show ?case
    unfolding startEvents_Suc
    using ih lt sr
    by (cases "fst (env (Suc k))")
      (simp_all add: startThreadsNext_def Let_def emit_def minPoolSize_def startThread_def
        newThread_def)
qed

lemma startEvents_done:
  assumes "n = nat (minThreads (poolState s))"
  shows "starts (exec (startEvents c env n) s) c = Some (Fulfilled This)
     \<and> starting (exec (startEvents c env n) s) c = (if n = 0 then starting s c else None)
     \<and> poolState (exec (startEvents c env n) s)
         = (poolState s)
             \<lparr>totalThreads := totalThreads (poolState s)
                 + length (filter (\<lambda>i. fst (env i) = Constructs) [0..<n]),
              freeThreads := freeThreads (poolState s) @ map (\<lambda>i. startResult (env i)) [0..<n]\<rparr>"
proof (cases n)
  case 0
  then have "\<not> 0 < minThreads (poolState s)" using assms by simp
  then show ?thesis
    using 0 by (simp add: startEvents_def exec_def startThreadsCall_def minPoolSize_def)
next
  case (Suc k)
  then have k: "k < nat (minThreads (poolState s))" using assms by simp
  note mid = startEvents_suspended[OF k, of c env]
  have ge: "\<not> int (Suc k) < minThreads (poolState s)" using Suc assms by linarith
  have sr: "started (fst (newThread (fst (env k)) (poolState s))) (snd (env k)) = startResult (env k)"
    by (rule started_startResult)
  show ?thesis
    unfolding Suc startEvents_Suc
    using mid ge sr
    by (simp add: startThreadsNext_def Let_def emit_def minPoolSize_def resolve_def)
qed


subsection \<open>The registry\<close>

lemma upper_order: "toUpperCase ''order'' = ''ORDER''" "toUpperCase ''ORDER'' = ''ORDER''"
  by (simp_all add: toUpperCase_def upper_char_def)

lemmas registry_defs = getThreadPool_def getPool_def createThreadPool_def mapHas_def mapGet_def
  mapSet_def mapDelete_def listPools_def preloaded_def preloading_def fresh_def
  startThreads_def startOne_def startThread_def newThread_def started_def minPoolSize_def
  initial_def ThreadPool_def or_default_def Let_def emit_def
  DEFAULT_THREADPOOL_MAX_def DEFAULT_THREADPOOL_MIN_def DEFAULT_JOBQUEUE_TOLERANCE_def

lemma orderRegistry_state:
  "listPools orderRegistry = [Name ''ORDER'']"
  "map (\<lambda>e. poolState (snd e)) orderRegistry =
     [\<lparr>freeThreads = [Some 8], waitingJobs = [], name = ''ORDER'', maxThreads = 2, minThreads = 1,
       queueTolerance = 25, closed = False, reloads = 0, jobsRequested = 0, jobsQueued = 0,
       totalThreads = 1\<rparr>]"
  by (simp_all add: orderRegistry_def registry_defs)

lemma lowerRegistry_state:
  "listPools lowerRegistry = [Name ''order'']"
  by (simp_all add: lowerRegistry_def registry_defs)

lemma mapGet_mapHas: "mapGet k R = Some s \<Longrightarrow> mapHas k R"
proof -
  assume "mapGet k R = Some s"
  then have "(k, s) \<in> set R" by (simp add: mapGet_def map_of_SomeD)
  then have "fst (k, s) \<in> fst ` set R" by (rule imageI)
  then show ?thesis by (simp add: mapHas_def)
qed

lemma keys_mapSet: "mapHas k R \<Longrightarrow> map fst (mapSet k v R) = map fst R"
proof -
  assume "mapHas k R"
  moreover have "map fst (map (\<lambda>e. if fst e = k then (k, v) else e) R) = map fst R"
    by (induction R) auto
  ultimately show ?thesis by (simp add: mapSet_def)
qed

lemma namedKeys_mapSet: "mapHas k R \<Longrightarrow> namedKeys R \<Longrightarrow> namedKeys (mapSet k v R)"
proof -
  assume h: "mapHas k R" and n: "namedKeys R"
  have "namedKeys R = list_all isName (map fst R)" for R :: registry
    by (simp add: namedKeys_def list_all_iff)
  with n keys_mapSet[OF h, of v] show ?thesis by simp
qed

lemma mapDelete_object: "namedKeys R \<Longrightarrow> mapDelete (PoolObject n) R = R"
proof -
  assume n: "namedKeys R"
  have "fst e \<noteq> PoolObject n" if "e \<in> set R" for e
    using n that by (cases "fst e") (auto simp: namedKeys_def list_all_iff)
  then show ?thesis by (simp add: mapDelete_def)
qed

lemma mapHas_object: "namedKeys R \<Longrightarrow> \<not> mapHas (PoolObject n) R"
proof
  assume n: "namedKeys R" and "mapHas (PoolObject n) R"
  then obtain e where "e \<in> set R" "fst e = PoolObject n" by (auto simp: mapHas_def)
  with n show False by (auto simp: namedKeys_def list_all_iff)
qed

text \<open>No call of \<open>destroy\<close> takes an entry out of a registry of named pools.\<close>

lemma destroy_never_removes:
  assumes "namedKeys R"
  shows "listPools (fst (destroy poolName d evs R)) = listPools R"
    and "snd (destroy poolName d evs R) \<noteq> Fulfilled (Some True)"
proof -
  let ?k = "Name (toUpperCase poolName)"
  show "listPools (fst (destroy poolName d evs R)) = listPools R"
  proof (cases "mapGet ?k R")
    case None
    then show ?thesis by (simp add: destroy_def)
  next
    case (Some s)
    note h = mapGet_mapHas[OF Some]
    have d: "mapDelete (PoolObject n) (mapSet ?k v R) = mapSet ?k v R" for n v
      by (rule mapDelete_object[OF namedKeys_mapSet[OF h assms]])
    show ?thesis
      using Some h
      by (simp add: destroy_def Let_def listPools_def keys_mapSet d
          split: option.splits promise.splits poolref.splits)
  qed
  show "snd (destroy poolName d evs R) \<noteq> Fulfilled (Some True)"
  proof (cases "mapGet ?k R")
    case None
    then show ?thesis by (simp add: destroy_def catch_log_def)
  next
    case (Some s)
    note h = mapGet_mapHas[OF Some]
    have d: "\<not> mapHas (PoolObject n) (mapSet ?k v R)" for n v
      by (rule mapHas_object[OF namedKeys_mapSet[OF h assms]])
    show ?thesis
      using Some
      by (simp add: destroy_def Let_def d catch_log_def
          split: option.splits promise.splits poolref.splits)
  qed
qed

subsection \<open>Digits\<close>

lemma digit_table:
  "\<forall>d \<in> set [0..9]. is_digit (digit_char d) \<and> digit_val (digit_char d) = d
      \<and> \<not> is_space (digit_char d) \<and> digit_char d \<noteq> CHR ''+'' \<and> digit_char d \<noteq> CHR ''-''
      \<and> digit_char d \<noteq> CHR ''x'' \<and> digit_char d \<noteq> CHR ''X''
      \<and> (digit_char d = CHR ''0'' \<longleftrightarrow> d = 0)"
  by code_simp

lemma digit_char_props:
  assumes "0 \<le> d" and "d < 10"
  shows "is_digit (digit_char d)" "digit_val (digit_char d) = d"
    "\<not> is_space (digit_char d)" "digit_char d \<noteq> CHR ''+''" "digit_char d \<noteq> CHR ''-''"
    "digit_char d \<noteq> CHR ''x''" "digit_char d \<noteq> CHR ''X''"
    "digit_char d = CHR ''0'' \<longleftrightarrow> d = 0"
proof -
  have "d \<in> set [0..9]" using assms by simp
  with digit_table have "is_digit (digit_char d) \<and> digit_val (digit_char d) = d
      \<and> \<not> is_space (digit_char d) \<and> digit_char d \<noteq> CHR ''+'' \<and> digit_char d \<noteq> CHR ''-''
      \<and> digit_char d \<noteq> CHR ''x'' \<and> digit_char d \<noteq> CHR ''X''
      \<and> (digit_char d = CHR ''0'' \<longleftrightarrow> d = 0)"
    by (rule bspec)
  then show "is_digit (digit_char d)" "digit_val (digit_char d) = d"
    "\<not> is_space (digit_char d)" "digit_char d \<noteq> CHR ''+''" "digit_char d \<noteq> CHR ''-''"
    "digit_char d \<noteq> CHR ''x''" "digit_char d \<noteq> CHR ''X''"
    "digit_char d = CHR ''0'' \<longleftrightarrow> d = 0"
    by blast+
qed

lemma digits_nonempty: "digits n \<noteq> []"
  by (subst digits.simps) simp

lemma digits_all: "0 \<le> n \<Longrightarrow> c \<in> set (digits n) \<Longrightarrow> is_digit c"
proof (induction n rule: digits.induct)
  case (1 n)
  show ?case
  proof (cases "n < 10")
    case True
    with "1.prems" show ?thesis
      by (subst (asm) digits.simps) (simp add: digit_char_props)
  next
    case False
    have m: "0 \<le> n mod 10" "n mod 10 < 10" by simp_all
    have d: "0 \<le> n div 10" using "1.prems"(1) by simp
    from False "1.prems"(2) have "c \<in> set (digits (n div 10)) \<or> c = digit_char (n mod 10)"
      by (subst (asm) digits.simps) auto
    then show ?thesis
      using "1.IH"[OF False d] digit_char_props(1)[OF m] by blast
  qed
qed

lemma radix_value_snoc: "radix_value r (s @ [c]) = radix_value r s * r + digit_val c"
  by (simp add: radix_value_def)

lemma radix_value_digits: "0 \<le> n \<Longrightarrow> radix_value 10 (digits n) = n"
proof (induction n rule: digits.induct)
  case (1 n)
  show ?case
  proof (cases "n < 10")
    case True
    with "1.prems" show ?thesis
      by (subst digits.simps) (simp add: radix_value_def digit_char_props)
  next
    case False
    have m: "0 \<le> n mod 10" "n mod 10 < 10" by simp_all
    have d: "0 \<le> n div 10" using "1.prems" by simp
    from "1.IH"[OF False d] False show ?thesis
      by (subst digits.simps) (simp add: radix_value_snoc digit_char_props(2)[OF m])
  qed
qed

lemma hd_digits: "0 < n \<Longrightarrow> hd (digits n) \<noteq> CHR ''0''"
proof (induction n rule: digits.induct)
  case (1 n)
  show ?case
  proof (cases "n < 10")
    case True
    with "1.prems" show ?thesis
      by (subst digits.simps) (simp add: digit_char_props)
  next
    case False
    then have "0 < n div 10" by simp
    with False "1.IH" show ?thesis
      by (subst digits.simps) (simp add: digits_nonempty)
  qed
qed

lemma length_digits: "0 < k \<Longrightarrow> n < 10 ^ k \<Longrightarrow> length (digits n) \<le> k"
proof (induction n arbitrary: k rule: digits.induct)
  case (1 n)
  show ?case
  proof (cases "n < 10")
    case True
    with "1.prems" show ?thesis by (subst digits.simps) simp
  next
    case False
    obtain k' where k: "k = Suc k'" using "1.prems"(1) by (cases k) auto
    have "0 < k'"
    proof (rule ccontr)
      assume "\<not> 0 < k'"
      then have "k = 1" using k by simp
      with "1.prems"(2) False show False by simp
    qed
    moreover have "n div 10 < 10 ^ k'"
      using "1.prems"(2) k by simp
    ultimately have "length (digits (n div 10)) \<le> k'"
      using "1.IH"[OF False] by simp
    with False k show ?thesis by (subst digits.simps) simp
  qed
qed

lemma significant_pad:
  "significant ds @ replicate (length ds - length (significant ds)) CHR ''0'' = ds"
proof -
  have "rev ds = takeWhile (\<lambda>c. c = CHR ''0'') (rev ds) @ dropWhile (\<lambda>c. c = CHR ''0'') (rev ds)"
    by simp
  moreover have "takeWhile (\<lambda>c. c = CHR ''0'') (rev ds)
      = replicate (length (takeWhile (\<lambda>c. c = CHR ''0'') (rev ds))) CHR ''0''"
    by (rule replicate_length_same[symmetric]) (auto dest: set_takeWhileD)
  ultimately have r: "rev ds = replicate (length (takeWhile (\<lambda>c. c = CHR ''0'') (rev ds))) CHR ''0''
       @ dropWhile (\<lambda>c. c = CHR ''0'') (rev ds)" by simp
  have l: "length ds - length (significant ds) = length (takeWhile (\<lambda>c. c = CHR ''0'') (rev ds))"
  proof -
    have "length (rev ds) = length (takeWhile (\<lambda>c. c = CHR ''0'') (rev ds))
        + length (dropWhile (\<lambda>c. c = CHR ''0'') (rev ds))"
      by (metis length_append takeWhile_dropWhile_id)
    then show ?thesis by (simp add: significant_def)
  qed
  have "ds = rev (rev ds)" by simp
  also have "\<dots> = rev (dropWhile (\<lambda>c. c = CHR ''0'') (rev ds))
       @ rev (replicate (length (takeWhile (\<lambda>c. c = CHR ''0'') (rev ds))) CHR ''0'')"
    by (subst r) simp
  finally have e: "rev (dropWhile (\<lambda>c. c = CHR ''0'') (rev ds))
       @ replicate (length (takeWhile (\<lambda>c. c = CHR ''0'') (rev ds))) CHR ''0'' = ds"
    by simp
  show ?thesis unfolding l unfolding significant_def by (rule e)
qed

subsection \<open>Safe integers are their own doubles\<close>

lemma log2floor_ge: "2 ^ j \<le> n \<Longrightarrow> j \<le> log2floor n"
proof (induction j arbitrary: n)
  case 0
  show ?case by simp
next
  case (Suc j)
  from Suc.prems have "2 * 2 ^ j \<le> n" by simp
  moreover have "(1::int) \<le> 2 ^ j" by (rule one_le_power) simp
  ultimately have n2: "\<not> n < 2" by linarith
  have "2 ^ j \<le> n div 2" using Suc.prems by simp
  then have "j \<le> log2floor (n div 2)" by (rule Suc.IH)
  with n2 show ?case by (subst log2floor.simps) simp
qed

lemma log2floor_upper: "n < 2 ^ Suc (log2floor n)"
proof (induction n rule: log2floor.induct)
  case (1 n)
  show ?case
  proof (cases "n < 2")
    case True
    then show ?thesis by (subst log2floor.simps) simp
  next
    case False
    from "1.IH"[OF False] have "n div 2 < 2 ^ Suc (log2floor (n div 2))" .
    then have "n < 2 * 2 ^ Suc (log2floor (n div 2))" by linarith
    with False show ?thesis by (subst log2floor.simps) simp
  qed
qed

lemma log10floor_less: "n < 10 ^ Suc j \<Longrightarrow> log10floor n \<le> j"
proof (induction j arbitrary: n)
  case 0
  then show ?case by (subst log10floor.simps) simp
next
  case (Suc j)
  show ?case
  proof (cases "n < 10")
    case True
    then show ?thesis by (subst log10floor.simps) simp
  next
    case False
    have "n div 10 < 10 ^ Suc j" using Suc.prems by simp
    then have "log10floor (n div 10) \<le> j" by (rule Suc.IH)
    with False show ?thesis by (subst log10floor.simps) simp
  qed
qed

lemma rne_one: "rne n 1 = n"
  by (simp add: rne_def Let_def)

lemma to_double_exact:
  assumes "0 < a" and "a < 2 ^ 53"
  shows "to_double a 1 = Some (exact a)"
proof -
  let ?L = "log2floor a"
  have L: "?L \<le> 52" using assms(2) by (intro log2floor_less) simp
  have il: "ilog2 a 1 = int ?L" using assms(1) by (simp add: ilog2_def)
  have e: "max (ilog2 a 1 - 52) (- 1074) = int ?L - 52" using il by simp
  have n: "nat (- (int ?L - 52)) = 52 - ?L" using L by simp
  have "a < 2 ^ Suc ?L" by (rule log2floor_upper)
  then have "a * 2 ^ (52 - ?L) < 2 ^ Suc ?L * 2 ^ (52 - ?L)" by simp
  also have "\<dots> = 2 ^ (Suc ?L + (52 - ?L))" by (simp only: power_add)
  also have "Suc ?L + (52 - ?L) = 53" using L by simp
  finally have m: "a * 2 ^ (52 - ?L) < 2 ^ 53" .
  show ?thesis
  proof (cases "?L = 52")
    case True
    with m e show ?thesis
      unfolding to_double_def Let_def e exact_def by (simp add: rne_one)
  next
    case False
    with L have lt: "int ?L - 52 < 0" by simp
    with m n show ?thesis
      unfolding to_double_def Let_def e exact_def by (simp add: rne_one)
  qed
qed

lemma to_double_large:
  assumes "2 ^ 53 \<le> c" and "to_double c 1 = Some (m, e)"
  shows "0 < e"
proof -
  have "53 \<le> log2floor c" using assms(1) by (rule log2floor_ge)
  moreover have "ilog2 c 1 = int (log2floor c)"
    using assms(1) by (simp add: ilog2_def)
  ultimately have e: "0 < max (ilog2 c 1 - 52) (- 1074)" by simp
  define e0 where "e0 = max (ilog2 c 1 - 52) (- 1074)"
  define m0 where "m0 = (if e0 < 0 then rne (c * 2 ^ nat (- e0)) 1 else rne c (1 * 2 ^ nat e0))"
  define d where "d = (if m0 = 2 ^ 53 then (2 ^ 52, e0 + 1) else (m0, e0))"
  have "to_double c 1 = (if 971 < snd d then None else Some d)"
    unfolding to_double_def Let_def d_def m0_def e0_def ..
  with assms(2) have "d = (m, e)" by (simp split: if_splits)
  then have "e = e0 + 1 \<or> e = e0" unfolding d_def by (simp split: if_splits)
  with e show ?thesis unfolding e0_def by linarith
qed

lemma exact_inj:
  assumes "0 < a" "0 < c" "exact c = exact a"
  shows "c = a"
proof -
  from assms(3) have "snd (exact c) = snd (exact a)" by simp
  then have L: "log2floor c = log2floor a" by (simp add: exact_def)
  from assms(3) have "fst (exact c) = fst (exact a)" by simp
  then have "c * 2 ^ (52 - log2floor c) = a * 2 ^ (52 - log2floor a)"
    by (simp only: exact_def fst_conv)
  then have "c * 2 ^ (52 - log2floor a) = a * 2 ^ (52 - log2floor a)"
    unfolding L .
  then show ?thesis by simp
qed

lemma to_double_zero: "to_double 0 1 = Some (m, e) \<Longrightarrow> m = 0"
  unfolding to_double_def Let_def by (auto simp: rne_def split: if_splits)

lemma to_double_eq_exact:
  assumes "0 < a" "a < 2 ^ 53" "0 \<le> c"
  shows "to_double c 1 = Some (exact a) \<longleftrightarrow> c = a"
proof
  assume "c = a"
  with to_double_exact[OF assms(1,2)] show "to_double c 1 = Some (exact a)" by simp
next
  assume t: "to_double c 1 = Some (exact a)"
  show "c = a"
  proof (cases "c = 0")
    case True
    with t have "fst (exact a) = 0" using to_double_zero[of "fst (exact a)" "snd (exact a)"] by simp
    with assms(1) show ?thesis by (simp add: exact_def)
  next
    case False
    with assms(3) have c0: "0 < c" by simp
    show ?thesis
    proof (cases "c < 2 ^ 53")
      case True
      from to_double_exact[OF c0 True] t have "exact c = exact a" by simp
      from exact_inj[OF assms(1) c0 this] show ?thesis .
    next
      case False
      then have "2 ^ 53 \<le> c" by simp
      from to_double_large[OF this, of "fst (exact a)" "snd (exact a)"] t
      have "0 < snd (exact a)" by simp
      moreover have "log2floor a \<le> 52" using assms(2) by (intro log2floor_less) simp
      ultimately show ?thesis by (simp add: exact_def)
    qed
  qed
qed

lemma fraction_exact:
  assumes "a < 2 ^ 53"
  shows "fraction (exact a) = (a * 2 ^ (52 - log2floor a), 2 ^ (52 - log2floor a))"
proof -
  have L: "log2floor a \<le> 52" using assms by (intro log2floor_less) simp
  show ?thesis
  proof (cases "log2floor a = 52")
    case True
    then show ?thesis by (simp add: fraction_def exact_def)
  next
    case False
    with L have "int (log2floor a) - 52 < 0" by simp
    moreover have "nat (52 - int (log2floor a)) = 52 - log2floor a" using L by simp
    ultimately show ?thesis by (simp add: fraction_def exact_def)
  qed
qed

lemma candidate_exact:
  assumes "0 < a" "a < 2 ^ 53" "0 \<le> p"
  shows "candidate (exact a) p = (if 10 ^ nat p dvd a then Some (a div 10 ^ nat p) else None)"
proof -
  let ?k = "52 - log2floor a"
  let ?lo = "a div 10 ^ nat p"
  have lo: "a * 2 ^ ?k div (2 ^ ?k * 10 ^ nat p) = ?lo"
    by (subst mult.commute[of a]) simp
  have lo0: "0 \<le> ?lo" using assms(1) by (simp add: pos_imp_zdiv_nonneg_iff)
  have vlo: "of_decimal ?lo p = Some (exact a) \<longleftrightarrow> 10 ^ nat p dvd a"
  proof -
    have "0 \<le> ?lo * 10 ^ nat p" using lo0 by simp
    from to_double_eq_exact[OF assms(1,2) this]
    have "to_double (?lo * 10 ^ nat p) 1 = Some (exact a) \<longleftrightarrow> ?lo * 10 ^ nat p = a" .
    also have "\<dots> \<longleftrightarrow> 10 ^ nat p dvd a"
      by (metis dvd_div_mult_self dvd_triv_right)
    finally show ?thesis using assms(3) by (simp add: of_decimal_def)
  qed
  have vhi: "of_decimal (?lo + 1) p \<noteq> Some (exact a)"
  proof -
    have gt: "a < (?lo + 1) * 10 ^ nat p"
    proof -
      have "a = ?lo * 10 ^ nat p + a mod 10 ^ nat p"
        by (rule div_mult_mod_eq[symmetric])
      moreover have "a mod 10 ^ nat p < 10 ^ nat p" by simp
      moreover have "(?lo + 1) * 10 ^ nat p = ?lo * 10 ^ nat p + 10 ^ nat p"
        by (simp add: algebra_simps)
      ultimately show ?thesis by linarith
    qed
    then have "0 \<le> (?lo + 1) * 10 ^ nat p" using assms(1) by linarith
    from to_double_eq_exact[OF assms(1,2) this] gt
    have "to_double ((?lo + 1) * 10 ^ nat p) 1 \<noteq> Some (exact a)" by simp
    then show ?thesis using assms(3) by (simp add: of_decimal_def)
  qed
  have "candidate (exact a) p =
      (if of_decimal ?lo p = Some (exact a) \<and> of_decimal (?lo + 1) p = Some (exact a)
       then Some (if 2 * (a * 2 ^ ?k) < (?lo + (?lo + 1)) * 10 ^ nat p * 2 ^ ?k
                     \<or> (2 * (a * 2 ^ ?k) = (?lo + (?lo + 1)) * 10 ^ nat p * 2 ^ ?k \<and> even ?lo)
                  then ?lo else ?lo + 1)
       else if of_decimal ?lo p = Some (exact a) then Some ?lo
       else if of_decimal (?lo + 1) p = Some (exact a) then Some (?lo + 1)
       else None)"
    unfolding candidate_def fraction_exact[OF assms(2)] prod.case Let_def
    using assms(3) by (simp only: if_True lo)
  also have "\<dots> = (if 10 ^ nat p dvd a then Some ?lo else None)"
    using vlo vhi by (simp only: if_False simp_thms)
  finally show ?thesis .
qed

lemma shortest_from_exact:
  assumes "0 < a" "a < 2 ^ 53"
  shows "0 \<le> p \<Longrightarrow> nat p < f \<Longrightarrow>
     \<exists>s q. shortest_from f (exact a) p = (s, q) \<and> 0 \<le> q \<and> s * 10 ^ nat q = a"
proof (induction f arbitrary: p)
  case 0
  then show ?case by simp
next
  case (Suc f)
  show ?case
  proof (cases "10 ^ nat p dvd a")
    case True
    then have "shortest_from (Suc f) (exact a) p = (a div 10 ^ nat p, p)"
      by (simp add: candidate_exact[OF assms Suc.prems(1)])
    moreover have "a div 10 ^ nat p * 10 ^ nat p = a" using True by simp
    ultimately show ?thesis using Suc.prems(1) by blast
  next
    case False
    then have "p \<noteq> 0" by auto
    with Suc.prems have p1: "0 \<le> p - 1" "nat (p - 1) < f" by simp_all
    from Suc.IH[OF p1] False show ?thesis
      by (simp add: candidate_exact[OF assms Suc.prems(1)])
  qed
qed

lemma strip_value:
  "strip s p = (s', p') \<Longrightarrow> p \<le> p' \<and> s' * 10 ^ nat (p' - p) = s"
proof (induction s p rule: strip.induct)
  case (1 s p)
  show ?case
  proof (cases "s \<noteq> 0 \<and> s mod 10 = 0")
    case True
    with "1.prems" have "strip (s div 10) (p + 1) = (s', p')"
      by (subst (asm) strip.simps) simp
    from "1.IH"[OF True this] have le: "p + 1 \<le> p'" and v: "s' * 10 ^ nat (p' - (p + 1)) = s div 10"
      by simp_all
    have "nat (p' - p) = Suc (nat (p' - (p + 1)))" using le by simp
    then have "s' * 10 ^ nat (p' - p) = (s div 10) * 10" using v by simp
    also have "\<dots> = s" using True by auto
    finally show ?thesis using le by simp
  next
    case False
    with "1.prems" have "s' = s" "p' = p" by (subst (asm) strip.simps; simp)+
    then show ?thesis by simp
  qed
qed

lemma written_integer:
  assumes "0 \<le> q"
  shows "written neg (s, q) = Integer ((if neg then - s else s) * 10 ^ nat q)"
proof -
  obtain s' q' where st: "strip s q = (s', q')" by (cases "strip s q") auto
  from strip_value[OF st] have le: "q \<le> q'" and v: "s' * 10 ^ nat (q' - q) = s" by simp_all
  have "nat q' = nat (q' - q) + nat q" using le assms by simp
  then have "s' * 10 ^ nat q' = s * 10 ^ nat q" using v by (simp add: power_add)
  then show ?thesis using st le assms by (simp add: written_def)
qed

lemma number_of_safe:
  assumes "0 < a" "a < 2 ^ 53"
  shows "number_of neg a 0 = Integer (if neg then - a else a)"
proof -
  have "a < 10 ^ Suc 15" using assms(2) by simp
  then have l10: "log10floor a \<le> 15" by (rule log10floor_less)
  have od: "of_decimal a 0 = Some (exact a)"
    using to_double_exact[OF assms] by (simp add: of_decimal_def)
  have nz: "fst (exact a) \<noteq> 0" using assms(1) by (simp add: exact_def)
  have fr: "fraction (exact a) = (a * 2 ^ (52 - log2floor a), 2 ^ (52 - log2floor a))"
    by (rule fraction_exact[OF assms(2)])
  have il: "ilog10 (a * 2 ^ (52 - log2floor a)) (2 ^ (52 - log2floor a)) = int (log10floor a)"
  proof -
    have "(2::int) ^ (52 - log2floor a) \<le> a * 2 ^ (52 - log2floor a)"
      using assms(1) by simp
    then show ?thesis by (simp add: ilog10_def)
  qed
  have "nat (int (log10floor a)) < 17" using l10 by simp
  from shortest_from_exact[OF assms _ this]
  obtain s q where sf: "shortest_from 17 (exact a) (int (log10floor a)) = (s, q)"
    and q: "0 \<le> q" and v: "s * 10 ^ nat q = a" by auto
  have sh: "shortest (exact a) = (s, q)"
    by (simp add: shortest_def fr il sf)
  have "written neg (s, q) = Integer ((if neg then - s else s) * 10 ^ nat q)"
    by (rule written_integer[OF q])
  also have "\<dots> = Integer (if neg then - a else a)" using v by simp
  finally show ?thesis
    using assms(1) l10 od nz sh by (simp add: number_of_def)
qed

lemma canonical_safe: "\<bar>i\<bar> < 2 ^ 53 \<Longrightarrow> canonical (Integer i) = Integer i"
proof (cases "i = 0")
  case True
  then show ?thesis by (simp add: number_of_def)
next
  case False
  assume "\<bar>i\<bar> < 2 ^ 53"
  with False have "0 < \<bar>i\<bar>" "\<bar>i\<bar> < 2 ^ 53" by simp_all
  from number_of_safe[OF this, of "i < 0"] show ?thesis by simp
qed

subsection \<open>Numbers that come back\<close>

lemma parseInt_digits:
  assumes "0 < n"
  shows "parseInt (digits n) = number_of False n 0"
    and "parseInt (CHR ''-'' # digits n) = number_of True n 0"
proof -
  have n0: "0 \<le> n" using assms by simp
  obtain c cs where ds: "digits n = c # cs"
    using digits_nonempty[of n] by (cases "digits n") auto
  have cd: "is_digit c" using digits_all[OF n0, of c] ds by simp
  have c0: "c \<noteq> CHR ''0''" using hd_digits[OF assms] ds by simp
  have all: "takeWhile is_digit (c # cs) = c # cs"
    using digits_all[OF n0] ds by (intro takeWhile_eq_all_conv[THEN iffD2]) auto
  have plain: "\<not> is_space c" "c \<noteq> CHR ''+''" "c \<noteq> CHR ''-''"
    using cd by (auto simp: is_digit_def is_space_def)
  have v: "radix_value 10 (c # cs) = n" using radix_value_digits[OF n0] ds by simp
  have m: "\<not> is_space CHR ''-''" by (simp add: is_space_def)
  show "parseInt (digits n) = number_of False n 0"
    unfolding ds parseInt_def Let_def
    using plain c0 all v by (simp add: unsigned_def negative_def)
  show "parseInt (CHR ''-'' # digits n) = number_of True n 0"
    unfolding ds parseInt_def Let_def
    using plain c0 all v m by (simp add: unsigned_def negative_def)
qed

lemma shown_integer:
  assumes "i \<noteq> 0" and "\<bar>i\<bar> < 10 ^ 21"
  shows "shown i 0 = (if i < 0 then ''-'' else []) @ digits \<bar>i\<bar>"
proof -
  let ?ds = "digits \<bar>i\<bar>"
  have n: "length ?ds \<le> 21" using assms(2) by (intro length_digits) simp_all
  have k: "length (significant ?ds) \<le> length ?ds"
    by (simp add: significant_def length_dropWhile_le[of _ "rev ?ds", simplified])
  have "positional (significant ?ds) (int (length ?ds)) = ?ds"
    using n k significant_pad[of ?ds] by (simp add: positional_def Let_def nat_diff_distrib')
  with assms(1) show ?thesis by (simp add: shown_def)
qed

lemma parseInt_shown:
  assumes "\<bar>i\<bar> < 2 ^ 53"
  shows "parseInt (shown i 0) = Integer i"
proof (cases "i = 0")
  case True
  have "parseInt ''0'' = Integer 0" by code_simp
  with True show ?thesis by (simp add: shown_def)
next
  case False
  then have nz: "i \<noteq> 0" by simp
  have "(2::int) ^ 53 < 10 ^ 21" by simp
  with assms have small: "\<bar>i\<bar> < 10 ^ 21" by linarith
  have a: "0 < \<bar>i\<bar>" "\<bar>i\<bar> < 2 ^ 53" using nz assms by simp_all
  note p = parseInt_digits[OF a(1)]
  show ?thesis
  proof (cases "i < 0")
    case True
    then have "shown i 0 = CHR ''-'' # digits \<bar>i\<bar>"
      using shown_integer[OF nz small] by simp
    then show ?thesis using True p(2) number_of_safe[OF a, of True] by simp
  next
    case False
    then have "shown i 0 = digits \<bar>i\<bar>"
      using shown_integer[OF nz small] by simp
    then show ?thesis using False p(1) number_of_safe[OF a, of False] by simp
  qed
qed

lemma parse_infinity:
  "parse ''Infinity'' = JNumber PosInfinity" "parse ''-Infinity'' = JNumber NegInfinity"
  by code_simp+

lemma parse_boolean: "parse ''true'' = JBoolean True" "parse ''false'' = JBoolean False"
  by code_simp+

lemma faithful_parse: "faithful v \<Longrightarrow> parse (toString v) = v"
proof (cases v)
  case (JBoolean b)
  then show ?thesis by (cases b) (simp_all add: parse_boolean)
next
  case (JNumber n)
  assume f: "faithful v"
  show ?thesis
  proof (cases n)
    case (Integer i)
    with f JNumber have i: "\<bar>i\<bar> < 2 ^ 53" by simp
    have "toString v = shown i 0"
      using JNumber Integer canonical_safe[OF i] by (simp add: numberToString_def)
    with JNumber Integer show ?thesis by (simp add: parse_def parseInt_shown[OF i])
  next
    case PosInfinity
    with JNumber show ?thesis by (simp add: numberToString_def parse_infinity)
  next
    case NegInfinity
    with JNumber show ?thesis by (simp add: numberToString_def parse_infinity)
  qed (use f JNumber in simp_all)
next
  case (JString s)
  assume "faithful v"
  with JString show ?thesis by (simp add: parse_def)
qed auto

lemma faithful_scalar: "faithful v \<Longrightarrow> scalar v"
  by (cases v) (auto simp: scalar_def)

subsection \<open>Objects that come back\<close>

lemma spread_single: "k \<notin> set (map fst a) \<Longrightarrow> spread a [(k, v)] = a @ [(k, v)]"
  by (simp add: spread_def setProp_def)

lemma foldl_spread:
  "distinct (map fst a @ map fst rest) \<Longrightarrow>
     foldl spread a (map (\<lambda>e. [(fst e, g e)]) rest) = a @ map (\<lambda>e. (fst e, g e)) rest"
proof (induction rest arbitrary: a)
  case Nil
  show ?case by simp
next
  case (Cons e rest)
  have new: "fst e \<notin> set (map fst a)" using Cons.prems by auto
  have d: "distinct (map fst (a @ [(fst e, g e)]) @ map fst rest)" using Cons.prems by auto
  show ?case
    using Cons.IH[OF d] by (simp add: spread_single[OF new])
qed

lemma convert_scalars:
  "\<forall>e \<in> set kvs. scalar (snd e) \<Longrightarrow>
     convert (JObject kvs) = map (\<lambda>e. (fst e, toString (snd e))) kvs"
proof -
  assume a: "\<forall>e \<in> set kvs. scalar (snd e)"
  then have "filter (\<lambda>(k, v). typeof v \<in> set [''string'', ''number'', ''boolean'']) kvs = kvs"
    by (intro filter_True) (auto simp: scalar_def)
  then show ?thesis by (simp add: convert_def case_prod_beta)
qed

lemma lift_echo:
  assumes "kv \<noteq> []" and "distinct (map fst kv)"
  shows "lift echo kv = Inr (map (\<lambda>e. (fst e, parse (snd e))) kv)"
proof -
  obtain e rest where kv: "kv = e # rest" using assms(1) by (cases kv) auto
  have d: "distinct (map fst [(fst e, parse (snd e))] @ map fst rest)"
    using assms(2) kv by simp
  have "foldl spread [(fst e, parse (snd e))] (map (\<lambda>e. [(fst e, parse (snd e))]) rest)
          = [(fst e, parse (snd e))] @ map (\<lambda>e. (fst e, parse (snd e))) rest"
    by (rule foldl_spread[OF d])
  then show ?thesis by (simp add: lift_def echo_def kv case_prod_unfold)
qed

text \<open>
  C8. In every state that a pool reaches from its construction by calls of \<open>run\<close>, job
  completions and any other event, \<open>jobsQueued\<close> is at most \<open>jobsRequested\<close>, and
  \<open>jobQueueRate\<close>, rounded as the doubles are, is not greater than 100. In the initial
  state both counters are 0 and the rate is \<open>NaN\<close>, which is greater than nothing.
\<close>

theorem queueRate_at_most_100:
  "jobsQueued (poolState (exec evs (initial (ThreadPool nm opts))))
     \<le> jobsRequested (poolState (exec evs (initial (ThreadPool nm opts))))
   \<and> \<not> gt_int (jobQueueRate (poolState (exec evs (initial (ThreadPool nm opts))))) 100
   \<and> jobQueueRate (poolState (initial (ThreadPool nm opts))) = NaN"
proof -
  let ?s = "exec evs (initial (ThreadPool nm opts))"
  have "accounted ?s" by (rule accounted_exec[OF accounted_initial])
  then have le: "jobsQueued (poolState ?s) \<le> jobsRequested (poolState ?s)"
    by (simp add: accounted_def)
  from round_percent_le[OF le] have "\<not> gt_int (jobQueueRate (poolState ?s)) 100"
    by (simp add: jobQueueRate_def)
  moreover have "jobQueueRate (poolState (initial (ThreadPool nm opts))) = NaN"
    by (simp add: jobQueueRate_def round_percent_values initial_def ThreadPool_def)
  ultimately show ?thesis using le by simp
qed

theorem queueRate_at_most_100_witness:
  "jobsQueued (poolState (exec [Close, Run 10 Constructs, Open, Run 20 Constructs, Resume 20 TimedOut]
       (initial (ThreadPool ''ORDER'' tolerance50)))) = 2
   \<and> jobsRequested (poolState (exec [Close, Run 10 Constructs, Open, Run 20 Constructs, Resume 20 TimedOut]
       (initial (ThreadPool ''ORDER'' tolerance50)))) = 2
   \<and> jobQueueRate (poolState (exec [Close, Run 10 Constructs, Open, Run 20 Constructs, Resume 20 TimedOut]
       (initial (ThreadPool ''ORDER'' tolerance50)))) = Integer 100
   \<and> \<not> gt_int (jobQueueRate (poolState (exec [Close, Run 10 Constructs, Open, Run 20 Constructs, Resume 20 TimedOut]
       (initial (ThreadPool ''ORDER'' tolerance50))))) 100"
  using queueRate_at_most_100
    [of "[Close, Run 10 Constructs, Open, Run 20 Constructs, Resume 20 TimedOut]" "''ORDER''" tolerance50]
  by (simp add: exec_def run_def resume_def close_def reopen_def closePool_def openPool_def
      enqueue_def initial_def ThreadPool_def tolerance50_def or_default_def Let_def
      threadAlloc_def startThread_def newThread_def started_def poolSize_def maxPoolSize_def
      jobQueueRate_def maxJobQueueRate_def round_percent_values
      DEFAULT_THREADPOOL_MAX_def DEFAULT_THREADPOOL_MIN_def DEFAULT_JOBQUEUE_TOLERANCE_def)

text \<open>
  C1, as amended. A closed pool appends the job to \<open>waitingJobs\<close> without asking
  \<open>threadAlloc\<close>, whatever \<open>totalThreads\<close> is. On \<open>run\<close> with an open pool and no free
  Thread, \<open>startThread\<close> is called if and only if \<open>totalThreads\<close> is 0, or \<open>totalThreads\<close> is
  below \<open>maxThreads\<close> and the rate, which \<open>jobQueueRate\<close> computes in double precision after
  \<open>jobsRequested\<close> has been incremented, is greater than the tolerance. The call constructs
  a Worker and increments \<open>totalThreads\<close>, unless \<open>new Worker\<close> throws: then the pool does
  not grow. The job is posted to the new Thread once the Worker has sent its first message;
  in every other case (nothing was started, the constructor threw, the Worker stayed
  silent) it is appended to \<open>waitingJobs\<close>. When the rate equals the tolerance and the pool
  has a Thread, none is started, \<open>totalThreads\<close> stays, and the job is appended to
  \<open>waitingJobs\<close>.
\<close>

theorem growth_on_submit:
  "(closed (poolState s) \<longrightarrow>
      suspended (run j w s) = suspended s
      \<and> totalThreads (poolState (run j w s)) = totalThreads (poolState s)
      \<and> freeThreads (poolState (run j w s)) = freeThreads (poolState s)
      \<and> listeners (run j w s) = listeners s
      \<and> waitingJobs (poolState (run j w s)) = waitingJobs (poolState s) @ [j]
      \<and> jobsQueued (poolState (run j w s)) = jobsQueued (poolState s) + 1)
   \<and> (\<not> closed (poolState s) \<and> fst (shift (freeThreads (poolState s))) = None \<longrightarrow>
      (let rate = round_percent (jobsQueued (poolState s)) (jobsRequested (poolState s) + 1);
           grow = (totalThreads (poolState s) = 0 \<or>
                   (int (totalThreads (poolState s)) < maxThreads (poolState s) \<and>
                    gt_int rate (queueTolerance (poolState s))))
       in (startRequested (suspended (run j w s) j) \<longleftrightarrow> grow)
          \<and> (suspended (run j w s) j = Some AwaitingReady \<longleftrightarrow> grow \<and> w = Constructs)
          \<and> totalThreads (poolState (run j w s))
              = totalThreads (poolState s) + (if grow \<and> w = Constructs then 1 else 0)
          \<and> waitingJobs (poolState (run j w s)) = waitingJobs (poolState s)
          \<and> (grow \<and> w = Constructs \<longrightarrow>
                listeners (resume j (Ready t) (run j w s)) = listeners s @ [(t, j, Direct)]
                \<and> waitingJobs (poolState (resume j (Ready t) (run j w s)))
                    = waitingJobs (poolState s)
                \<and> jobsQueued (poolState (resume j (Ready t) (run j w s)))
                    = jobsQueued (poolState s))
          \<and> (\<not> (grow \<and> w = Constructs) \<or> h = TimedOut \<longrightarrow>
                listeners (resume j h (run j w s)) = listeners s
                \<and> waitingJobs (poolState (resume j h (run j w s)))
                    = waitingJobs (poolState s) @ [j]
                \<and> jobsQueued (poolState (resume j h (run j w s)))
                    = jobsQueued (poolState s) + 1)
          \<and> (totalThreads (poolState s) \<noteq> 0 \<and> rate = Integer (queueTolerance (poolState s)) \<longrightarrow>
                \<not> grow
                \<and> \<not> startRequested (suspended (run j w s) j)
                \<and> totalThreads (poolState (run j w s)) = totalThreads (poolState s)
                \<and> waitingJobs (poolState (resume j h (run j w s)))
                    = waitingJobs (poolState s) @ [j]
                \<and> jobsQueued (poolState (resume j h (run j w s)))
                    = jobsQueued (poolState s) + 1)))"
  (is "(_ \<longrightarrow> ?A) \<and> (_ \<longrightarrow> ?B)")
proof -
  let ?p = "(poolState s)\<lparr>jobsRequested := jobsRequested (poolState s) + 1,
              freeThreads := snd (shift (freeThreads (poolState s)))\<rparr>"
  let ?rate = "round_percent (jobsQueued (poolState s)) (jobsRequested (poolState s) + 1)"
  let ?grow = "totalThreads (poolState s) = 0 \<or>
                 (int (totalThreads (poolState s)) < maxThreads (poolState s) \<and>
                  gt_int ?rate (queueTolerance (poolState s)))"
  have shut: "suspended (run j w s) = suspended s
      \<and> totalThreads (poolState (run j w s)) = totalThreads (poolState s)
      \<and> freeThreads (poolState (run j w s)) = freeThreads (poolState s)
      \<and> listeners (run j w s) = listeners s
      \<and> waitingJobs (poolState (run j w s)) = waitingJobs (poolState s) @ [j]
      \<and> jobsQueued (poolState (run j w s)) = jobsQueued (poolState s) + 1"
    if "closed (poolState s)"
    by (simp add: run_closed[OF that] enqueue_def)
  have opened: "(startRequested (suspended (run j w s) j) \<longleftrightarrow> ?grow)
          \<and> (suspended (run j w s) j = Some AwaitingReady \<longleftrightarrow> ?grow \<and> w = Constructs)
          \<and> totalThreads (poolState (run j w s))
              = totalThreads (poolState s) + (if ?grow \<and> w = Constructs then 1 else 0)
          \<and> waitingJobs (poolState (run j w s)) = waitingJobs (poolState s)
          \<and> (?grow \<and> w = Constructs \<longrightarrow>
                listeners (resume j (Ready t) (run j w s)) = listeners s @ [(t, j, Direct)]
                \<and> waitingJobs (poolState (resume j (Ready t) (run j w s)))
                    = waitingJobs (poolState s)
                \<and> jobsQueued (poolState (resume j (Ready t) (run j w s)))
                    = jobsQueued (poolState s))
          \<and> (\<not> (?grow \<and> w = Constructs) \<or> h = TimedOut \<longrightarrow>
                listeners (resume j h (run j w s)) = listeners s
                \<and> waitingJobs (poolState (resume j h (run j w s)))
                    = waitingJobs (poolState s) @ [j]
                \<and> jobsQueued (poolState (resume j h (run j w s)))
                    = jobsQueued (poolState s) + 1)
          \<and> (totalThreads (poolState s) \<noteq> 0 \<and> ?rate = Integer (queueTolerance (poolState s)) \<longrightarrow>
                \<not> ?grow
                \<and> \<not> startRequested (suspended (run j w s) j)
                \<and> totalThreads (poolState (run j w s)) = totalThreads (poolState s)
                \<and> waitingJobs (poolState (resume j h (run j w s)))
                    = waitingJobs (poolState s) @ [j]
                \<and> jobsQueued (poolState (resume j h (run j w s)))
                    = jobsQueued (poolState s) + 1)"
    if o: "\<not> closed (poolState s)" and n: "fst (shift (freeThreads (poolState s))) = None"
  proof -
    note r = run_no_free_thread[OF o n, of j w]
    have ls: "listeners (run j w s) = listeners s"
      using o n
      by (cases "shift (freeThreads (poolState s))") (simp add: run_def Let_def split: prod.splits)
    show ?thesis
    proof (cases ?grow)
      case True
      show ?thesis
      proof (cases w)
        case Throws
        have ta: "threadAlloc w ?p = (CtorThrew, ?p)"
          using True Throws by (simp add: threadAlloc_grows)
        have su: "suspended (run j w s) j = Some CtorThrew" using r(1) ta by simp
        have ps: "poolState (run j w s) = ?p" using r(2) ta by simp
        show ?thesis
          using True Throws su ps ls
          by (auto simp add: resume_def Let_def started_def enqueue_def)
      next
        case Constructs
        have ta: "threadAlloc w ?p = (AwaitingReady, ?p\<lparr>totalThreads := totalThreads ?p + 1\<rparr>)"
          using True Constructs by (simp add: threadAlloc_grows)
        have su: "suspended (run j w s) j = Some AwaitingReady" using r(1) ta by simp
        have ps: "poolState (run j w s) = ?p\<lparr>totalThreads := totalThreads ?p + 1\<rparr>"
          using r(2) ta by simp
        show ?thesis
          using True Constructs su ps ls
          by (auto simp add: resume_def Let_def started_def enqueue_def postJob_def emit_def)
      qed
    next
      case False
      have ta: "threadAlloc w ?p = (NotStarted, ?p)"
        using False by (auto simp add: threadAlloc_grows)
      have su: "suspended (run j w s) j = Some NotStarted" using r(1) ta by simp
      have ps: "poolState (run j w s) = ?p" using r(2) ta by simp
      show ?thesis
        using False su ps ls
        by (auto simp add: resume_def Let_def started_def enqueue_def)
    qed
  qed
  show ?thesis
  proof (rule conjI)
    show "closed (poolState s) \<longrightarrow> ?A"
      by (rule impI) (rule shut)
    have "?B" if "\<not> closed (poolState s) \<and> fst (shift (freeThreads (poolState s))) = None"
      unfolding Let_def using that by (intro opened) simp_all
    then show "\<not> closed (poolState s) \<and> fst (shift (freeThreads (poolState s))) = None \<longrightarrow> ?B"
      by (rule impI)
  qed
qed

text \<open>
  A closed pool starts no Thread although \<open>totalThreads\<close> is 0, an open pool without a
  Thread starts one although the rate equals the tolerance, and an open pool without a
  Thread does not grow when \<open>new Worker\<close> throws.
\<close>

theorem growth_on_submit_counterexample:
  "(closed (poolState closedPool)
      \<and> fst (shift (freeThreads (poolState closedPool))) = None
      \<and> totalThreads (poolState closedPool) = 0
      \<and> \<not> startRequested (suspended (run 10 Constructs closedPool) 10)
      \<and> totalThreads (poolState (run 10 Constructs closedPool)) = 0
      \<and> waitingJobs (poolState (run 10 Constructs closedPool)) = [10])
   \<and> (\<not> closed (poolState tiedPool)
      \<and> fst (shift (freeThreads (poolState tiedPool))) = None
      \<and> round_percent (jobsQueued (poolState tiedPool)) (jobsRequested (poolState tiedPool) + 1)
           = Integer (queueTolerance (poolState tiedPool))
      \<and> startRequested (suspended (run 20 Constructs tiedPool) 20)
      \<and> totalThreads (poolState (run 20 Constructs tiedPool)) = 1
      \<and> waitingJobs (poolState (run 20 Constructs tiedPool)) = [10])
   \<and> (totalThreads (poolState tiedPool) = 0
      \<and> totalThreads (poolState (run 20 Throws tiedPool)) = 0
      \<and> totalThreads (poolState (resume 20 TimedOut (run 20 Throws tiedPool))) = 0
      \<and> waitingJobs (poolState (resume 20 TimedOut (run 20 Throws tiedPool))) = [10, 20])"
  by (simp add: closedPool_state tiedPool_state run_def resume_def started_def Let_def enqueue_def
      threadAlloc_def startThread_def newThread_def poolSize_def round_percent_values)

text \<open>
  The closed pool queues; the pool at the rate 25 of its tolerance queues; the pool at the
  rate 33 grows by one Thread, to which the job is posted, and does not grow when the
  constructor throws.
\<close>

theorem growth_on_submit_witness:
  "(closed (poolState closedPool)
      \<and> suspended (run 10 Constructs closedPool) 10 = None
      \<and> totalThreads (poolState (run 10 Constructs closedPool)) = 0
      \<and> waitingJobs (poolState (run 10 Constructs closedPool)) = [10])
   \<and> (\<not> closed (poolState quarterPool)
      \<and> fst (shift (freeThreads (poolState quarterPool))) = None
      \<and> totalThreads (poolState quarterPool) = 1
      \<and> round_percent (jobsQueued (poolState quarterPool)) (jobsRequested (poolState quarterPool) + 1)
           = Integer 25
      \<and> \<not> startRequested (suspended (run 40 Constructs quarterPool) 40)
      \<and> totalThreads (poolState (run 40 Constructs quarterPool)) = 1
      \<and> waitingJobs (poolState (resume 40 TimedOut (run 40 Constructs quarterPool))) = [40])
   \<and> (\<not> closed (poolState loadedPool)
      \<and> fst (shift (freeThreads (poolState loadedPool))) = None
      \<and> totalThreads (poolState loadedPool) = 1
      \<and> round_percent (jobsQueued (poolState loadedPool)) (jobsRequested (poolState loadedPool) + 1)
           = Integer 33
      \<and> suspended (run 30 Constructs loadedPool) 30 = Some AwaitingReady
      \<and> totalThreads (poolState (run 30 Constructs loadedPool)) = 2
      \<and> listeners (resume 30 (Ready 8) (run 30 Constructs loadedPool))
           = [(7, 10, Direct), (8, 30, Direct)]
      \<and> waitingJobs (poolState (resume 30 (Ready 8) (run 30 Constructs loadedPool))) = [20]
      \<and> startRequested (suspended (run 30 Throws loadedPool) 30)
      \<and> totalThreads (poolState (run 30 Throws loadedPool)) = 1
      \<and> waitingJobs (poolState (resume 30 TimedOut (run 30 Throws loadedPool))) = [20, 30])"
proof -
  have c: "closed (poolState closedPool)" by (simp add: closedPool_state)
  have q: "\<not> closed (poolState quarterPool)"
    "fst (shift (freeThreads (poolState quarterPool))) = None"
    by (simp_all add: quarterPool_state)
  have l: "\<not> closed (poolState loadedPool)"
    "fst (shift (freeThreads (poolState loadedPool))) = None"
    by (simp_all add: loadedPool_state)
  show ?thesis
    using growth_on_submit[of closedPool 10 Constructs 0 TimedOut]
      growth_on_submit[of quarterPool 40 Constructs 0 TimedOut]
      growth_on_submit[of loadedPool 30 Constructs 8 TimedOut]
      growth_on_submit[of loadedPool 30 Throws 8 TimedOut]
    by (simp add: c q l closedPool_state quarterPool_state loadedPool_state round_percent_values
        Let_def)
qed

text \<open>
  C10. Whatever happens to the pool, no promise returned by \<open>run\<close> is ever rejected: the
  executor of \<open>run\<close> takes \<open>resolve\<close> only, and the rejections of \<open>newThread\<close> and
  \<open>postJob\<close> are logged and turned into \<open>undefined\<close>. A promise of \<open>run\<close> is pending or
  fulfilled, with a value, an error Result or \<open>undefined\<close>.
\<close>

theorem run_promise_never_rejected:
  "\<not> rejected (promises (exec evs (initial p)) j)"
  using unrejected_exec[OF unrejected_initial, of evs p] by (simp add: unrejected_def)

text \<open>
  A Worker that dies while it works on a job posted by \<open>run\<close> itself leaves the promise
  fulfilled with \<open>undefined\<close>.
\<close>

theorem run_promise_never_rejected_witness:
  "promises (exec [WorkerError 7] busyPool) 10 = Some (Fulfilled None)
   \<and> \<not> rejected (promises (exec [Run 10 Constructs, Resume 10 (Ready 7), WorkerError 7]
                              (initial (ThreadPool ''ORDER'' defaults))) 10)"
  using run_promise_never_rejected
    [of "[Run 10 Constructs, Resume 10 (Ready 7), WorkerError 7]" "ThreadPool ''ORDER'' defaults" 10]
  by (simp add: busyPool_def exec_def run_def resume_def workerError_def onError_def
      enqueue_def initial_def ThreadPool_def defaults_def or_default_def Let_def
      threadAlloc_def startThread_def newThread_def started_def poolSize_def
      postJob_def emit_def settle_def resolve_def)

text \<open>
  C2, as amended. When the Worker's reply to a job is an error Result, the promise that
  \<open>run\<close> returned is fulfilled with that Result, not rejected. The pool stays as open as it
  was, and the Thread goes back to \<open>freeThreads\<close> or takes the first waiting job.
\<close>

theorem error_result_is_resolved:
  assumes one: "filter (\<lambda>l. fst l = t) (listeners s) = [(t, j, m)]"
    and pending: "promises s j = Some Pending"
  shows "promises (message t (HasError msg) s) j = Some (Fulfilled (Some (HasError msg)))
     \<and> \<not> rejected (promises (message t (HasError msg) s) j)
     \<and> closed (poolState (message t (HasError msg) s)) = closed (poolState s)
     \<and> (case waitingJobs (poolState s) of
          [] \<Rightarrow> freeThreads (poolState (message t (HasError msg) s))
                  = freeThreads (poolState s) @ [Some t]
        | k # ks \<Rightarrow> waitingJobs (poolState (message t (HasError msg) s)) = ks
            \<and> freeThreads (poolState (message t (HasError msg) s)) = freeThreads (poolState s)
            \<and> listeners (message t (HasError msg) s)
                = filter (\<lambda>l. fst l \<noteq> t) (listeners s) @ [(t, k, Queued)])"
proof -
  let ?s0 = "s\<lparr>listeners := filter (\<lambda>l. fst l \<noteq> t) (listeners s)\<rparr>"
  have m: "message t (HasError msg) s = onMessage (HasError msg) (t, j, m) ?s0"
    by (rule message_single[OF one])
  have p0: "promises ?s0 j = Some Pending" using pending by simp
  have pr: "promises (message t (HasError msg) s) j = Some (Fulfilled (Some (HasError msg)))"
    unfolding m by (rule onMessage_promise[OF p0])
  have cl: "closed (poolState (message t (HasError msg) s)) = closed (poolState s)"
    unfolding m
    by (cases "waitingJobs (poolState s)") (simp_all add: onMessage_idle onMessage_handover)
  have sv: "case waitingJobs (poolState s) of
          [] \<Rightarrow> freeThreads (poolState (message t (HasError msg) s))
                  = freeThreads (poolState s) @ [Some t]
        | k # ks \<Rightarrow> waitingJobs (poolState (message t (HasError msg) s)) = ks
            \<and> freeThreads (poolState (message t (HasError msg) s)) = freeThreads (poolState s)
            \<and> listeners (message t (HasError msg) s)
                = filter (\<lambda>l. fst l \<noteq> t) (listeners s) @ [(t, k, Queued)]"
    unfolding m
    by (cases "waitingJobs (poolState s)") (simp_all add: onMessage_idle onMessage_handover)
  from pr cl sv show ?thesis by simp
qed

theorem error_result_is_resolved_counterexample:
  "promises busyPool 10 = Some Pending
   \<and> promises (message 7 (HasError ''boom'') busyPool) 10
       = Some (Fulfilled (Some (HasError ''boom'')))
   \<and> \<not> rejected (promises (message 7 (HasError ''boom'') busyPool) 10)"
  by (simp add: busyPool_state message_def onMessage_def Let_def settle_def resolve_def
      emitNoJobsRunning_def emit_def noJobsRunning_def)

theorem error_result_is_resolved_witness:
  "filter (\<lambda>l. fst l = 7) (listeners busyPool) = [(7, 10, Direct)]
   \<and> promises busyPool 10 = Some Pending
   \<and> promises (message 7 (HasError ''boom'') busyPool) 10
       = Some (Fulfilled (Some (HasError ''boom'')))
   \<and> \<not> closed (poolState (message 7 (HasError ''boom'') busyPool))
   \<and> freeThreads (poolState (message 7 (HasError ''boom'') busyPool)) = [Some 7]
   \<and> listeners (run 20 Constructs (message 7 (HasError ''boom'') busyPool)) = [(7, 20, Direct)]"
proof -
  have h1: "filter (\<lambda>l. fst l = 7) (listeners busyPool) = [(7, 10, Direct)]"
    by (simp add: busyPool_state)
  have h2: "promises busyPool 10 = Some Pending" by (simp add: busyPool_state)
  have m: "poolState (message 7 (HasError ''boom'') busyPool)
             = (poolState busyPool)\<lparr>freeThreads := [Some 7]\<rparr>"
      "listeners (message 7 (HasError ''boom'') busyPool) = []"
    unfolding message_single[OF h1]
    by (simp_all add: onMessage_idle busyPool_state)
  have r: "listeners (run 20 Constructs (message 7 (HasError ''boom'') busyPool)) = [(7, 20, Direct)]"
    by (simp add: run_def Let_def m busyPool_state postJob_def)
  show ?thesis
    using error_result_is_resolved[OF h1 h2, of "''boom''"] h1 h2 r
    by (simp add: busyPool_state)
qed

text \<open>
  C3, as amended. \<open>drain\<close> on a pool that is not closed returns a rejected promise. On a
  closed pool it resolves with the pool at once when \<open>noJobsRunning\<close> holds; otherwise the
  promise is pending, and it is fulfilled with the pool when \<open>noJobsRunning\<close> is emitted,
  which the reply to the last running job does. If the 4000 ms timer fires first, the
  rejection is logged and the promise the caller holds is fulfilled with \<open>undefined\<close>: the
  timeout does not reach the caller as a failure.
\<close>

theorem drain_outcomes:
  "(\<not> closed (poolState s) \<longrightarrow> drains (drain d s) d = Some (Rejected ''[object Object]''))
   \<and> (closed (poolState s) \<and> noJobsRunning (poolState s) \<longrightarrow>
        drains (drain d s) d = Some (Fulfilled (Some This)))
   \<and> (closed (poolState s) \<and> \<not> noJobsRunning (poolState s) \<longrightarrow>
        drains (drain d s) d = Some Pending
        \<and> drains (emitNoJobsRunning (drain d s)) d = Some (Fulfilled (Some This))
        \<and> drains (drainTimeout d (drain d s)) d = Some (Fulfilled None)
        \<and> \<not> rejected (drains (drainTimeout d (drain d s)) d)
        \<and> (filter (\<lambda>l. fst l = t) (listeners s) = [(t, j, m)]
             \<and> waitingJobs (poolState s) = []
             \<and> totalThreads (poolState s) = length (freeThreads (poolState s)) + 1 \<longrightarrow>
             drains (message t r (drain d s)) d = Some (Fulfilled (Some This))))"
proof -
  have waiting: "drains (drain d s) d = Some Pending
        \<and> drains (emitNoJobsRunning (drain d s)) d = Some (Fulfilled (Some This))
        \<and> drains (drainTimeout d (drain d s)) d = Some (Fulfilled None)
        \<and> \<not> rejected (drains (drainTimeout d (drain d s)) d)
        \<and> (filter (\<lambda>l. fst l = t) (listeners s) = [(t, j, m)]
             \<and> waitingJobs (poolState s) = []
             \<and> totalThreads (poolState s) = length (freeThreads (poolState s)) + 1 \<longrightarrow>
             drains (message t r (drain d s)) d = Some (Fulfilled (Some This)))"
    if c: "closed (poolState s)" and n: "\<not> noJobsRunning (poolState s)"
  proof -
    note w = drain_waiting[OF c n, of d]
    have e: "drains (emitNoJobsRunning (drain d s)) d = Some (Fulfilled (Some This))"
      by (rule emitNoJobsRunning_drains[OF w(2) w(1)])
    have to: "drains (drainTimeout d (drain d s)) d = Some (Fulfilled None)"
      by (rule drainTimeout_drains[OF w(3) w(1)])
    have msg: "drains (message t r (drain d s)) d = Some (Fulfilled (Some This))"
      if one: "filter (\<lambda>l. fst l = t) (listeners s) = [(t, j, m)]"
        and wj: "waitingJobs (poolState s) = []"
        and tt: "totalThreads (poolState s) = length (freeThreads (poolState s)) + 1"
    proof -
      let ?s0 = "(drain d s)\<lparr>listeners := filter (\<lambda>l. fst l \<noteq> t) (listeners (drain d s))\<rparr>"
      have one': "filter (\<lambda>l. fst l = t) (listeners (drain d s)) = [(t, j, m)]"
        using one w(5) by simp
      have "drains (message t r (drain d s)) = drains (emitNoJobsRunning ?s0)"
        unfolding message_single[OF one']
        by (rule onMessage_last_job) (simp_all add: w(4) wj tt)
      moreover have "drains (emitNoJobsRunning ?s0) d = Some (Fulfilled (Some This))"
        by (rule emitNoJobsRunning_drains) (simp_all add: w(1) w(2))
      ultimately show ?thesis by simp
    qed
    from w(1) e to msg show ?thesis by simp
  qed
  from drain_open[of s d] drain_idle[of s d] waiting show ?thesis by blast
qed

theorem drain_outcomes_counterexample:
  "closed (poolState closedBusyPool)
   \<and> \<not> noJobsRunning (poolState closedBusyPool)
   \<and> drains (drain 0 closedBusyPool) 0 = Some Pending
   \<and> drains (drainTimeout 0 (drain 0 closedBusyPool)) 0 = Some (Fulfilled None)
   \<and> \<not> rejected (drains (drainTimeout 0 (drain 0 closedBusyPool)) 0)"
  by (simp add: closedBusyPool_state noJobsRunning_def drain_def Let_def emit_def
      drainTimeout_def catch_log_def reject_def)

theorem drain_outcomes_witness:
  "closed (poolState closedBusyPool)
   \<and> \<not> noJobsRunning (poolState closedBusyPool)
   \<and> filter (\<lambda>l. fst l = 7) (listeners closedBusyPool) = [(7, 10, Direct)]
   \<and> drains (drain 0 closedBusyPool) 0 = Some Pending
   \<and> drains (message 7 (Value ''done'') (drain 0 closedBusyPool)) 0 = Some (Fulfilled (Some This))
   \<and> drains (drainTimeout 0 (drain 0 closedBusyPool)) 0 = Some (Fulfilled None)
   \<and> drains (drain 0 busyPool) 0 = Some (Rejected ''[object Object]'')
   \<and> drains (drain 0 (close idlePool)) 0 = Some (Fulfilled (Some This))"
proof -
  have a: "drains (drain 0 busyPool) 0 = Some (Rejected ''[object Object]'')"
    using drain_outcomes[of busyPool 0 7 10 Direct "Value ''done''"]
    by (simp add: busyPool_state)
  have i: "poolState (close idlePool) = (poolState busyPool)\<lparr>freeThreads := [Some 7], closed := True\<rparr>"
    by (simp add: idlePool_def exec_def close_def closePool_def
        message_single[of 7 busyPool "(7, 10, Direct)"] busyPool_state onMessage_idle)
  have b: "drains (drain 0 (close idlePool)) 0 = Some (Fulfilled (Some This))"
    using drain_outcomes[of "close idlePool" 0 7 10 Direct "Value ''done''"]
    by (simp add: i busyPool_state noJobsRunning_def)
  show ?thesis
    using drain_outcomes[of closedBusyPool 0 7 10 Direct "Value ''done''"] a b
    by (simp add: closedBusyPool_state noJobsRunning_def)
qed

text \<open>
  C6, as amended. \<open>startThreads\<close> has no check for the Threads the pool holds, and its
  promise is never rejected. The call starts a first Worker, or fulfils its promise at
  once when \<open>minThreads\<close> is not positive. Each continuation pushes what \<open>startThread\<close>
  returned, a Thread or \<open>undefined\<close>, onto \<open>freeThreads\<close> as they are then, and either starts
  the next Worker or, after the push number \<open>minThreads\<close>, fulfils the promise with the
  pool; no other event changes how far the call has come. When nothing else happens to
  the pool between the call and its last push, \<open>freeThreads\<close> ends as it was followed by the
  \<open>minThreads\<close> results, and \<open>totalThreads\<close> has grown by the number of Workers constructed:
  on a pool without Threads whose Workers all start, the pool ends with exactly
  \<open>minThreads\<close> Threads, all of them on \<open>freeThreads\<close>.
\<close>

theorem startThreads_appends_min:
  "starts (startThreadsCall c w s) c
     = Some (if 0 < minThreads (poolState s) then Pending else Fulfilled This)
   \<and> freeThreads (poolState (startThreadsCall c w s)) = freeThreads (poolState s)
   \<and> totalThreads (poolState (startThreadsCall c w s))
     = totalThreads (poolState s) + (if 0 < minThreads (poolState s) \<and> w = Constructs then 1 else 0)
   \<and> starting (startThreadsCall c w s) c
     = (if 0 < minThreads (poolState s)
        then Some (0, if w = Constructs then AwaitingReady else CtorThrew)
        else starting s c)
   \<and> (starting s c = Some (i, a) \<longrightarrow>
        freeThreads (poolState (startThreadsNext c h w s))
          = freeThreads (poolState s) @ [started a h]
        \<and> (int (Suc i) < minThreads (poolState s) \<longrightarrow>
             starting (startThreadsNext c h w s) c
               = Some (Suc i, if w = Constructs then AwaitingReady else CtorThrew)
             \<and> starts (startThreadsNext c h w s) c = starts s c
             \<and> totalThreads (poolState (startThreadsNext c h w s))
                 = totalThreads (poolState s) + (if w = Constructs then 1 else 0))
        \<and> (\<not> int (Suc i) < minThreads (poolState s) \<longrightarrow>
             starting (startThreadsNext c h w s) c = None
             \<and> starts (startThreadsNext c h w s) c = map_option (resolve This) (starts s c)
             \<and> totalThreads (poolState (startThreadsNext c h w s)) = totalThreads (poolState s)))
   \<and> ((\<forall>w'. e \<noteq> StartCall c w') \<and> (\<forall>h' w'. e \<noteq> StartNext c h' w') \<longrightarrow>
        starting (step e s) c = starting s c \<and> starts (step e s) c = starts s c)
   \<and> (\<not> rejected (starts s c) \<longrightarrow> \<not> rejected (starts (exec evs s) c))
   \<and> \<not> rejected (starts (exec evs (initial (ThreadPool nm opts))) c)
   \<and> starts (exec (startEvents c env (nat (minThreads (poolState s)))) s) c
     = Some (Fulfilled This)
   \<and> poolState (exec (startEvents c env (nat (minThreads (poolState s)))) s)
     = poolState (startThreads env s)
   \<and> freeThreads (poolState (startThreads env s))
     = freeThreads (poolState s)
         @ map (\<lambda>i. startResult (env i)) [0..<nat (minThreads (poolState s))]
   \<and> totalThreads (poolState (startThreads env s))
     = totalThreads (poolState s)
         + length (filter (\<lambda>i. fst (env i) = Constructs) [0..<nat (minThreads (poolState s))])
   \<and> ((\<forall>i < nat (minThreads (poolState s)). env i = (Constructs, Ready (f i)))
        \<and> freeThreads (poolState s) = [] \<and> totalThreads (poolState s) = 0 \<longrightarrow>
        freeThreads (poolState (startThreads env s))
          = map (\<lambda>i. Some (f i)) [0..<nat (minThreads (poolState s))]
        \<and> totalThreads (poolState (startThreads env s)) = nat (minThreads (poolState s)))"
proof -
  let ?n = "nat (minThreads (poolState s))"
  have call: "starts (startThreadsCall c w s) c
       = Some (if 0 < minThreads (poolState s) then Pending else Fulfilled This)
     \<and> freeThreads (poolState (startThreadsCall c w s)) = freeThreads (poolState s)
     \<and> totalThreads (poolState (startThreadsCall c w s))
       = totalThreads (poolState s) + (if 0 < minThreads (poolState s) \<and> w = Constructs then 1 else 0)
     \<and> starting (startThreadsCall c w s) c
       = (if 0 < minThreads (poolState s)
          then Some (0, if w = Constructs then AwaitingReady else CtorThrew)
          else starting s c)"
    by (cases w)
      (simp_all add: startThreadsCall_def minPoolSize_def startThread_def newThread_def)
  have turn: "freeThreads (poolState (startThreadsNext c h w s))
          = freeThreads (poolState s) @ [started a h]
        \<and> (int (Suc i) < minThreads (poolState s) \<longrightarrow>
             starting (startThreadsNext c h w s) c
               = Some (Suc i, if w = Constructs then AwaitingReady else CtorThrew)
             \<and> starts (startThreadsNext c h w s) c = starts s c
             \<and> totalThreads (poolState (startThreadsNext c h w s))
                 = totalThreads (poolState s) + (if w = Constructs then 1 else 0))
        \<and> (\<not> int (Suc i) < minThreads (poolState s) \<longrightarrow>
             starting (startThreadsNext c h w s) c = None
             \<and> starts (startThreadsNext c h w s) c = map_option (resolve This) (starts s c)
             \<and> totalThreads (poolState (startThreadsNext c h w s)) = totalThreads (poolState s))"
    if "starting s c = Some (i, a)"
    using that
    by (cases w)
      (simp_all add: startThreadsNext_def Let_def emit_def minPoolSize_def startThread_def
        newThread_def)
  have others: "starting (step e s) c = starting s c \<and> starts (step e s) c = starts s c"
    if "(\<forall>w'. e \<noteq> StartCall c w') \<and> (\<forall>h' w'. e \<noteq> StartNext c h' w')"
    using that by (intro progress_step) simp_all
  have never: "\<not> rejected (starts (exec evs s) c)" if "\<not> rejected (starts s c)"
    using that by (rule starts_exec_unrejected)
  have "\<not> rejected (starts (initial (ThreadPool nm opts)) c)"
    by (simp add: initial_def)
  then have fresh: "\<not> rejected (starts (exec evs (initial (ThreadPool nm opts))) c)"
    by (rule starts_exec_unrejected)
  have p: "poolState (startThreads env s) =
     (poolState s)
       \<lparr>totalThreads := totalThreads (poolState s)
           + length (filter (\<lambda>k. fst (env k) = Constructs) [0..<?n]),
        freeThreads := freeThreads (poolState s) @ map (\<lambda>k. startResult (env k)) [0..<?n]\<rparr>"
    unfolding startThreads_def minPoolSize_def startLoop_pool by simp
  note d = startEvents_done[OF refl, of c env s]
  have whole: "starts (exec (startEvents c env ?n) s) c = Some (Fulfilled This)
     \<and> poolState (exec (startEvents c env ?n) s) = poolState (startThreads env s)"
    using d p by simp
  have ok: "map (\<lambda>k. startResult (env k)) [0..<?n] = map (\<lambda>i. Some (f i)) [0..<?n]
      \<and> filter (\<lambda>k. fst (env k) = Constructs) [0..<?n] = [0..<?n]"
    if "\<forall>i < ?n. env i = (Constructs, Ready (f i))"
    using that by (auto simp: startResult_def intro: filter_True)
  have closed_form: "freeThreads (poolState (startThreads env s))
     = freeThreads (poolState s) @ map (\<lambda>i. startResult (env i)) [0..<?n]
   \<and> totalThreads (poolState (startThreads env s))
     = totalThreads (poolState s)
         + length (filter (\<lambda>i. fst (env i) = Constructs) [0..<?n])
   \<and> ((\<forall>i < ?n. env i = (Constructs, Ready (f i)))
        \<and> freeThreads (poolState s) = [] \<and> totalThreads (poolState s) = 0 \<longrightarrow>
        freeThreads (poolState (startThreads env s)) = map (\<lambda>i. Some (f i)) [0..<?n]
        \<and> totalThreads (poolState (startThreads env s)) = ?n)"
    using p ok by auto
  show ?thesis
    using call turn others never fresh whole closed_form by blast
qed

text \<open>
  A pool of one Thread with \<open>minThreads = 1\<close> ends with two, and the promise of
  \<open>startThreads\<close> is fulfilled with the pool.
\<close>

theorem startThreads_appends_min_counterexample:
  "totalThreads (poolState idlePool) = 1
   \<and> minThreads (poolState idlePool) = 1
   \<and> freeThreads (poolState (startThreads fresh idlePool)) = [Some 7, Some 8]
   \<and> totalThreads (poolState (startThreads fresh idlePool)) = 2
   \<and> starts (exec [StartCall 0 Constructs] idlePool) 0 = Some Pending
   \<and> totalThreads (poolState (exec [StartCall 0 Constructs] idlePool)) = 2
   \<and> starts (exec [StartCall 0 Constructs, StartNext 0 (Ready 8) Constructs] idlePool) 0
       = Some (Fulfilled This)
   \<and> freeThreads (poolState (exec [StartCall 0 Constructs, StartNext 0 (Ready 8) Constructs] idlePool))
       = [Some 7, Some 8]
   \<and> totalThreads (poolState (exec [StartCall 0 Constructs, StartNext 0 (Ready 8) Constructs] idlePool))
       = 2"
  by (simp add: idlePool_state startThreads_def minPoolSize_def startOne_pool fresh_def
      startResult_def exec_def startThreadsCall_def startThreadsNext_def startThread_def
      newThread_def started_def emit_def resolve_def Let_def)

text \<open>
  After \<open>stopThreads\<close> the pool is empty: \<open>startThreads\<close> brings it to its one Thread, also
  when a \<open>run\<close> falls between the call and the push.
\<close>

theorem startThreads_appends_min_witness:
  "minThreads (poolState (stopThreads idlePool)) = 1
   \<and> fresh 0 = (Constructs, Ready 8)
   \<and> freeThreads (poolState (stopThreads idlePool)) = []
   \<and> totalThreads (poolState (stopThreads idlePool)) = 0
   \<and> freeThreads (poolState (startThreads fresh (stopThreads idlePool))) = [Some 8]
   \<and> totalThreads (poolState (startThreads fresh (stopThreads idlePool))) = 1
   \<and> starting (startThreadsCall 0 Constructs (stopThreads idlePool)) 0 = Some (0, AwaitingReady)
   \<and> starts (startThreadsCall 0 Constructs (stopThreads idlePool)) 0 = Some Pending
   \<and> freeThreads (poolState (startThreadsNext 0 (Ready 8) Constructs
        (startThreadsCall 0 Constructs (stopThreads idlePool)))) = [Some 8]
   \<and> starts (startThreadsNext 0 (Ready 8) Constructs
        (startThreadsCall 0 Constructs (stopThreads idlePool))) 0 = Some (Fulfilled This)
   \<and> starts (run 50 Constructs (startThreadsCall 0 Constructs (stopThreads idlePool))) 0
       = Some Pending
   \<and> \<not> rejected (starts (exec [StartCall 0 Constructs, Run 50 Constructs,
          StartNext 0 (Ready 8) Constructs] (stopThreads idlePool)) 0)"
proof -
  let ?s = "stopThreads idlePool"
  let ?s1 = "startThreadsCall 0 Constructs ?s"
  have s: "poolState ?s = (poolState idlePool)\<lparr>freeThreads := [], totalThreads := 0\<rparr>"
    "starting ?s = starting idlePool" "starts ?s = starts idlePool"
    by (simp_all add: stopThreads_def)
  have i: "starts idlePool 0 = None" "starting idlePool 0 = None"
    by (simp_all add: idlePool_def busyPool_def run_defs)
  have s1: "starting ?s1 0 = Some (0, AwaitingReady)" "starts ?s1 0 = Some Pending"
    "minThreads (poolState ?s1) = 1"
    by (simp_all add: s i idlePool_state startThreadsCall_def minPoolSize_def startThread_def
        newThread_def)
  have nr: "\<not> rejected (starts ?s 0)" by (simp add: s i)
  show ?thesis
    using startThreads_appends_min[of 0 Constructs ?s 0 AwaitingReady "Ready 8" "Run 50 Constructs"
        "[StartCall 0 Constructs, Run 50 Constructs, StartNext 0 (Ready 8) Constructs]"
        "''ORDER''" defaults fresh "\<lambda>i. 8 + i"]
      startThreads_appends_min[of 0 Constructs ?s1 0 AwaitingReady "Ready 8" "Run 50 Constructs"
        "[]" "''ORDER''" defaults fresh "\<lambda>i. 8 + i"]
      nr s1
    by (simp add: s idlePool_state fresh_def startResult_def started_def resolve_def)
qed

text \<open>
  C7. \<open>stopThreads\<close> does remove the Threads from the free stack before any of them is
  stopped, and stops them only when its timer of one second fires. But it does not stop
  every Thread of the pool, also after a \<open>drain\<close> that resolved with the pool. A pool
  preloaded with \<open>minThreads = 2\<close> whose first Worker never reported holds
  \<open>[undefined, Thread 9]\<close> on the free stack and counts two Threads, so that \<open>drain\<close>
  resolves at once; the timer of \<open>stopThreads\<close> throws at the \<open>undefined\<close> entry, and
  Thread 9 is neither sent \<open>shutdown\<close> nor terminated, while the pool has forgotten it.
  In a pool where a \<open>run\<close> took Thread 8 during the preload, \<open>totalThreads\<close> was set to the
  one Thread on the free stack: \<open>drain\<close> resolves at once while Thread 8 works on its
  job, and \<open>stopThreads\<close> stops Thread 9 only.
\<close>

theorem stopThreads_leaves_threads:
  "(freeThreads (poolState limpingPool) = [None, Some 9]
      \<and> totalThreads (poolState limpingPool) = 2
      \<and> poolThreads limpingPool = [9]
      \<and> drains (exec [Close, Drain 0] limpingPool) 0 = Some (Fulfilled (Some This))
      \<and> freeThreads (poolState (exec [Close, Drain 0, StopThreads] limpingPool)) = []
      \<and> totalThreads (poolState (exec [Close, Drain 0, StopThreads] limpingPool)) = 0
      \<and> stopping (exec [Close, Drain 0, StopThreads] limpingPool) = []
      \<and> killTimers (exec [Close, Drain 0, StopThreads] limpingPool) = [[None, Some 9]]
      \<and> killTimers (exec [Close, Drain 0, StopThreads, KillTimeout] limpingPool) = []
      \<and> stopping (exec [Close, Drain 0, StopThreads, KillTimeout] limpingPool) = []
      \<and> ended (exec [Close, Drain 0, StopThreads, KillTimeout, WorkerExit 9, TerminateTimeout 9]
           limpingPool) = []
      \<and> poolThreads (exec [Close, Drain 0, StopThreads, KillTimeout] limpingPool) = [])
   \<and> (freeThreads (poolState overtakenPool) = [Some 9]
      \<and> totalThreads (poolState overtakenPool) = 1
      \<and> poolThreads overtakenPool = [9, 8]
      \<and> listeners overtakenPool = [(8, 10, Direct)]
      \<and> drains (exec [Close, Drain 0] overtakenPool) 0 = Some (Fulfilled (Some This))
      \<and> killTimers (exec [Close, Drain 0, StopThreads] overtakenPool) = [[Some 9]]
      \<and> stopping (exec [Close, Drain 0, StopThreads] overtakenPool) = []
      \<and> stopping (exec [Close, Drain 0, StopThreads, KillTimeout] overtakenPool) = [9]
      \<and> killTimers (exec [Close, Drain 0, StopThreads, KillTimeout] overtakenPool) = []
      \<and> listeners (exec [Close, Drain 0, StopThreads, KillTimeout] overtakenPool)
          = [(8, 10, Direct)]
      \<and> ended (exec [Close, Drain 0, StopThreads, KillTimeout, WorkerExit 9, WorkerExit 8,
           TerminateTimeout 8] overtakenPool) = [(9, Exited)])"
  by (simp add: limpingPool_state overtakenPool_state exec_def close_def closePool_def drain_def
      Let_def emit_def noJobsRunning_def catch_log_def resolve_def stopThreads_def
      killTimeout_def kill_def poolThreads_def workerExit_def terminateTimeout_def
      del: not_None_eq)

text \<open>
  C4. \<open>destroy\<close> closes the pool, announces and drains it and stops its Threads, in this
  order; but the entry stays: \<open>threadPools.delete\<close> is given the pool object instead of
  the key, finds nothing and returns \<open>false\<close>, with which the promise resolves. After
  \<open>destroy('ORDER')\<close> on a registry holding the idle pool \<open>ORDER\<close>, \<open>listPools\<close> still
  lists \<open>ORDER\<close>.
\<close>

theorem destroy_keeps_the_entry:
  "listPools orderRegistry = [Name ''ORDER'']
   \<and> snd (destroy ''ORDER'' 0 [] orderRegistry) = Fulfilled (Some False)
   \<and> listPools (fst (destroy ''ORDER'' 0 [] orderRegistry)) = [Name ''ORDER'']
   \<and> map (\<lambda>e. emitted (snd e)) (fst (destroy ''ORDER'' 0 [] orderRegistry))
        = [[''aegis-up'', poolClose ''ORDER'', poolDrain ''ORDER'']]
   \<and> map (\<lambda>e. closed (poolState (snd e))) (fst (destroy ''ORDER'' 0 [] orderRegistry)) = [True]
   \<and> map (\<lambda>e. freeThreads (poolState (snd e))) (fst (destroy ''ORDER'' 0 [] orderRegistry)) = [[]]
   \<and> map (\<lambda>e. killTimers (snd e)) (fst (destroy ''ORDER'' 0 [] orderRegistry)) = [[[Some 8]]]"
  by (simp add: orderRegistry_def destroy_def upper_order registry_defs drain_def notify_def
      close_def closePool_def poolClose_def poolDrain_def noJobsRunning_def catch_log_def
      resolve_def stopThreads_def)

text \<open>
  C5. \<open>createThreadPool\<close> stores the pool under the model name as it was given, while
  \<open>reload\<close>, \<open>destroy\<close> and \<open>status\<close> look it up under the upper-cased name: a pool
  created as \<open>order\<close> is stored under \<open>order\<close> and found by none of the three.
\<close>

theorem lower_case_pool_is_not_found:
  "listPools lowerRegistry = [Name ''order'']
   \<and> toUpperCase ''order'' = ''ORDER''
   \<and> mapGet (Name (toUpperCase ''order'')) lowerRegistry = None
   \<and> statusOf ''order'' lowerRegistry = Inl TypeError
   \<and> reload ''order'' 0 [] fresh lowerRegistry = (lowerRegistry, Fulfilled None)
   \<and> destroy ''order'' 0 [] lowerRegistry = (lowerRegistry, Fulfilled None)"
  by (simp add: lowerRegistry_def statusOf_def reload_def destroy_def upper_order registry_defs
      catch_log_def)

text \<open>
  C9, as amended. For a non-empty object whose fields are all strings, numbers or
  booleans and which is not in the custom port format, lowering it with \<open>clean\<close> and
  lifting the same array gives the object whose fields are \<open>parse (toString v)\<close>, where
  \<open>parse\<close> tries \<open>parseInt\<close>, then \<open>parseFloat\<close>, then the match of \<open>true\<close>, then of
  \<open>false\<close>, and keeps the string otherwise. The result equals the original when every
  field is a boolean, a safe integer (below \<open>2 ^ 53\<close> in absolute value), an infinity, or a
  string that no stage of \<open>parse\<close> takes for something else. Strings are those of the code
  units up to U+00FF, and numbers are doubles, as \<open>parseInt\<close> and \<open>parseFloat\<close> round them.
\<close>

theorem roundtrip_is_coercion:
  assumes nonempty: "kvs \<noteq> []"
    and keys: "distinct (map fst kvs)"
    and scalars: "\<forall>e \<in> set kvs. scalar (snd e)"
    and plain: "\<not> portFormat (JObject kvs)"
  shows "callWasmFunction echo (JObject kvs)
           = Inr (map (\<lambda>e. (fst e, parse (toString (snd e)))) kvs)
     \<and> (\<forall>v. parse v =
          (if parseInt v \<noteq> NaN then JNumber (parseInt v)
           else if parseFloat v \<noteq> NaN then JNumber (parseFloat v)
           else if test_i ''true'' v then JBoolean True
           else if test_i ''false'' v then JBoolean False
           else JString v))
     \<and> ((\<forall>e \<in> set kvs. faithful (snd e)) \<longrightarrow> callWasmFunction echo (JObject kvs) = Inr kvs)"
proof -
  let ?kv = "map (\<lambda>e. (fst e, toString (snd e))) kvs"
  have np: "\<not> (truthy (getProp ''port'' (JObject kvs)) \<and> truthy (getProp ''args'' (JObject kvs)))"
    using plain unfolding portFormat_def .
  have c: "clean (JObject kvs) = Inr ?kv"
    by (simp only: clean_def jsvalue.case np if_False convert_scalars[OF scalars])
  have ne: "?kv \<noteq> []" using nonempty by simp
  have di: "distinct (map fst ?kv)" using keys by (simp add: comp_def)
  have r: "callWasmFunction echo (JObject kvs)
           = Inr (map (\<lambda>e. (fst e, parse (toString (snd e)))) kvs)"
    by (simp add: callWasmFunction_def c lower_def lift_echo[OF ne di] comp_def)
  have same: "map (\<lambda>e. (fst e, parse (toString (snd e)))) kvs = kvs"
    if "\<forall>e \<in> set kvs. faithful (snd e)"
    using that by (intro map_idI) (simp add: faithful_parse)
  show ?thesis using r same by (simp add: parse_def)
qed

text \<open>
  The string \<open>42\<close> comes back as the number 42, and the number 1.5 as the number 1. So do
  strings that only begin like a number: after a no-break space, with more digits than a
  double holds, or beyond the largest double.
\<close>

theorem roundtrip_is_coercion_counterexample:
  "list_all (\<lambda>e. scalar (snd e)) orderItem
   \<and> callWasmFunction echo (JObject orderItem)
       = Inr [(''id'', JNumber (Integer 42)), (''price'', JNumber (Integer 1))]
   \<and> callWasmFunction echo (JObject orderItem) \<noteq> Inr orderItem
   \<and> parse [CHR 0xA0, CHR ''4'', CHR ''2''] = JNumber (Integer 42)
   \<and> parse ''10000000000000000000001'' = JNumber (Integer 10000000000000000000000)
   \<and> parse ''.1e400'' = JNumber PosInfinity"
  by code_simp

theorem roundtrip_is_coercion_witness:
  "widget \<noteq> []
   \<and> distinct (map fst widget)
   \<and> list_all (\<lambda>e. scalar (snd e)) widget
   \<and> \<not> portFormat (JObject widget)
   \<and> list_all (\<lambda>e. faithful (snd e)) widget
   \<and> callWasmFunction echo (JObject widget) = Inr widget"
proof -
  have h1: "widget \<noteq> []" by code_simp
  have h2: "distinct (map fst widget)" by code_simp
  have s: "list_all (\<lambda>e. scalar (snd e)) widget" by code_simp
  have f: "list_all (\<lambda>e. faithful (snd e)) widget" by code_simp
  have h3: "\<forall>e \<in> set widget. scalar (snd e)" using s by (simp add: list_all_iff)
  have h4: "\<not> portFormat (JObject widget)" by code_simp
  have h5: "\<forall>e \<in> set widget. faithful (snd e)" using f by (simp add: list_all_iff)
  show ?thesis
    using roundtrip_is_coercion[OF h1 h2 h3 h4] h1 h2 s h4 f h5 by blast
qed

end
